theory Spec2Isabelle
  imports Complex_Main "HOL-Library.AList"
begin

section \<open>Floats and dictionaries\<close>

text \<open>
  A Python float is modelled by the real number it stands for, and floats are compared as
  these numbers are. Its arithmetic rounds, so it is not the arithmetic of the reals: the
  operations on floats are parameters of the model, arbitrary functions of which a theorem
  assumes only what it says. \<open>f_sum\<close> is the built-in \<open>sum\<close> on a sequence of floats
  (the integer 0 when the sequence is empty), \<open>f_add\<close>, \<open>f_mul\<close> and \<open>f_div\<close> are
  \<open>+\<close>, \<open>*\<close> and \<open>/\<close>, and \<open>f_lit\<close> gives the float that a decimal literal of the
  source denotes.
\<close>

record floats =
  f_sum :: "real list \<Rightarrow> real"
  f_add :: "real \<Rightarrow> real \<Rightarrow> real"
  f_mul :: "real \<Rightarrow> real \<Rightarrow> real"
  f_div :: "real \<Rightarrow> real \<Rightarrow> real"
  f_lit :: "real \<Rightarrow> real"

text \<open>The arithmetic that does not round: one possible value of the parameter.\<close>

definition exact_floats :: floats where
  "exact_floats =
     \<lparr>f_sum = sum_list, f_add = (+), f_mul = (*), f_div = (/), f_lit = (\<lambda>x. x)\<rparr>"

text \<open>
  Python's dictionaries keep insertion order and are iterated in that order, so a
  dictionary is an association list with distinct keys, read with \<^const>\<open>map_of\<close> and
  written with \<^const>\<open>AList.update\<close> and \<^const>\<open>AList.delete\<close>.
\<close>

text \<open>
  The exceptions the modelled code can raise. The first two are the \<open>ValueError\<close>s of
  \<open>create_agent\<close>, told apart by their message; \<open>IntegrityError\<close> is the database
  refusing a second row with the same unique name, \<open>DatabaseError\<close> any other failure
  of a database block.
\<close>

datatype py_error =
    MaxAgentsReached int
  | NameExists string
  | KeyError string
  | IndexError
  | IntegrityError string
  | DatabaseError

section \<open>Executors (src/agents/hyperagent.py)\<close>

record capability =
  cap_name :: string
  level :: real

datatype agent_status = Initializing | Active | ShuttingDown | Inactive

record hyper_agent =
  agent_id :: string
  agent_name :: string
  agent_type :: string
  status :: agent_status
  capabilities :: "capability list"
  tasks_completed :: int
  success_rate :: real
  learning_rate :: real

text \<open>\<open>HyperAgent._initialize_capabilities\<close>\<close>

definition initialize_capabilities :: "floats \<Rightarrow> capability list" where
  "initialize_capabilities fl =
     [\<lparr>cap_name = ''quantum_processing'', level = f_lit fl 1\<rparr>,
      \<lparr>cap_name = ''pattern_recognition'', level = f_lit fl 1\<rparr>,
      \<lparr>cap_name = ''adaptive_learning'', level = f_lit fl 1\<rparr>,
      \<lparr>cap_name = ''memory_optimization'', level = f_lit fl 1\<rparr>,
      \<lparr>cap_name = ''task_execution'', level = f_lit fl 1\<rparr>,
      \<lparr>cap_name = ''communication'', level = f_lit fl 1\<rparr>,
      \<lparr>cap_name = ''self_modification'', level = f_lit fl (5 / 10)\<rparr>,
      \<lparr>cap_name = ''predictive_analysis'', level = f_lit fl (8 / 10)\<rparr>]"

text \<open>
  \<open>HyperAgent.__init__\<close> followed by a successful \<open>HyperAgent.initialize\<close>, which sets
  the status to active. The identifier is drawn by \<open>uuid.uuid4()\<close>; the model takes it as
  an argument.
\<close>

definition new_agent :: "floats \<Rightarrow> string \<Rightarrow> string \<Rightarrow> string \<Rightarrow> hyper_agent" where
  "new_agent fl uid nm ty =
     \<lparr>agent_id = uid, agent_name = nm, agent_type = ty, status = Active,
      capabilities = initialize_capabilities fl, tasks_completed = 0,
      success_rate = f_lit fl 1, learning_rate = f_lit fl (1 / 100)\<rparr>"

text \<open>\<open>HyperAgent._get_relevant_capabilities\<close>\<close>

definition relevance_map :: "(string \<times> string list) list" where
  "relevance_map =
     [(''data_analysis'', [''pattern_recognition'', ''adaptive_learning'', ''quantum_processing'']),
      (''pattern_recognition'', [''pattern_recognition'', ''memory_optimization'']),
      (''optimization'', [''quantum_processing'', ''adaptive_learning'', ''predictive_analysis'']),
      (''communication'', [''communication'', ''memory_optimization'']),
      (''learning'', [''adaptive_learning'', ''memory_optimization'', ''self_modification''])]"

definition relevant_names :: "string \<Rightarrow> string list" where
  "relevant_names task_type =
     (case map_of relevance_map task_type of
        Some names \<Rightarrow> names
      | None \<Rightarrow> [''task_execution''])"

definition get_relevant_capabilities :: "hyper_agent \<Rightarrow> string \<Rightarrow> capability list" where
  "get_relevant_capabilities a task_type =
     filter (\<lambda>cap. cap_name cap \<in> set (relevant_names task_type)) (capabilities a)"

section \<open>The agent pool (src/agents/pool.py)\<close>

record task =
  tk_type :: "string option"
  tk_priority :: "int option"

text \<open>\<open>task_data.get("type", "general")\<close> and \<open>task_data.get("priority", 1)\<close>\<close>

definition get_type :: "task \<Rightarrow> string" where
  "get_type t = (case tk_type t of Some ty \<Rightarrow> ty | None \<Rightarrow> ''general'')"

definition get_priority :: "task \<Rightarrow> int" where
  "get_priority t = (case tk_priority t of Some p \<Rightarrow> p | None \<Rightarrow> 1)"

text \<open>
  The pool's fields. Of \<open>PoolMetrics\<close> the counters are kept; the two float averages are
  written by \<open>_update_metrics\<close> and read by no decision of the pool. \<open>agent_rows\<close> is not
  a field of the pool: it is the column \<open>name\<close> of the table \<open>agents\<close> of the database,
  which is unique, and of which no row is ever deleted.
\<close>

record agent_pool =
  agents :: "(string \<times> hyper_agent) list"
  task_queue :: "task list"
  total_agents :: int
  active_agents :: int
  tasks_in_queue :: int
  tasks_done :: int
  is_running :: bool
  agent_workloads :: "(string \<times> int) list"
  round_robin_index :: int
  optimization_cycles :: nat
  agent_rows :: "string list"

text \<open>\<open>AgentPool.__init__\<close>, over a database whose table of agents holds the given names.\<close>

definition init_pool :: "string list \<Rightarrow> agent_pool" where
  "init_pool rows =
     \<lparr>agents = [], task_queue = [], total_agents = 0, active_agents = 0,
      tasks_in_queue = 0, tasks_done = 0, is_running = False,
      agent_workloads = [], round_robin_index = 0, optimization_cycles = 0,
      agent_rows = rows\<rparr>"

subsection \<open>Selection\<close>

text \<open>
  The score of \<open>_select_best_agent\<close>: the sum of the relevant levels times the success
  rate, both computed on floats.
\<close>

definition score :: "floats \<Rightarrow> hyper_agent \<Rightarrow> string \<Rightarrow> real" where
  "score fl a task_type =
     f_mul fl (f_sum fl (map level (get_relevant_capabilities a task_type))) (success_rate a)"

text \<open>The loop of \<open>_select_best_agent\<close>, on the pair \<open>(best_agent, best_score)\<close>.\<close>

fun best_loop ::
  "floats \<Rightarrow> hyper_agent list \<Rightarrow> string \<Rightarrow> hyper_agent option \<times> real \<Rightarrow> hyper_agent option \<times> real" where
  "best_loop fl [] task_type acc = acc"
| "best_loop fl (a # as) task_type (best_agent, best_score) =
     (if score fl a task_type > best_score
      then best_loop fl as task_type (Some a, score fl a task_type)
      else best_loop fl as task_type (best_agent, best_score))"

text \<open>\<open>return best_agent or agents[0]\<close>; indexing an empty list raises.\<close>

definition select_best_agent :: "floats \<Rightarrow> hyper_agent list \<Rightarrow> string \<Rightarrow> py_error + hyper_agent" where
  "select_best_agent fl ags task_type =
     (case fst (best_loop fl ags task_type (None, 0)) of
        Some a \<Rightarrow> Inr a
      | None \<Rightarrow> (case ags of [] \<Rightarrow> Inl IndexError | a # _ \<Rightarrow> Inr a))"

text \<open>\<open>self.agent_workloads.get(agent.id, 0)\<close>\<close>

definition workload_of :: "agent_pool \<Rightarrow> hyper_agent \<Rightarrow> int" where
  "workload_of s a =
     (case map_of (agent_workloads s) (agent_id a) of Some w \<Rightarrow> w | None \<Rightarrow> 0)"

text \<open>
  \<open>sum(cap.level for cap in relevant_caps) / len(relevant_caps) if relevant_caps else 0.5\<close>
\<close>

definition avg_capability :: "floats \<Rightarrow> hyper_agent \<Rightarrow> string \<Rightarrow> real" where
  "avg_capability fl a task_type =
     (let relevant_caps = get_relevant_capabilities a task_type
      in if relevant_caps \<noteq> []
         then f_div fl (f_sum fl (map level relevant_caps)) (real (length relevant_caps))
         else f_lit fl (5 / 10))"

text \<open>
  \<open>_select_least_loaded_capable_agent\<close>. Python's \<open>list.sort\<close> is stable, as is
  \<^const>\<open>sort_key\<close>.
\<close>

definition capable_agents ::
  "floats \<Rightarrow> agent_pool \<Rightarrow> hyper_agent list \<Rightarrow> string \<Rightarrow> (hyper_agent \<times> int) list" where
  "capable_agents fl s ags task_type =
     (let capable = map (\<lambda>a. (a, workload_of s a))
                      (filter (\<lambda>a. avg_capability fl a task_type \<ge> f_lit fl (7 / 10)) ags)
      in if capable = [] then map (\<lambda>a. (a, workload_of s a)) ags else capable)"

definition select_least_loaded_capable_agent ::
  "floats \<Rightarrow> agent_pool \<Rightarrow> hyper_agent list \<Rightarrow> string \<Rightarrow> py_error + hyper_agent" where
  "select_least_loaded_capable_agent fl s ags task_type =
     (case sort_key snd (capable_agents fl s ags task_type) of
        [] \<Rightarrow> Inl IndexError
      | p # _ \<Rightarrow> Inr (fst p))"

text \<open>\<open>_select_round_robin_agent\<close>: the cursor is a field of the pool.\<close>

definition select_round_robin_agent ::
  "agent_pool \<Rightarrow> hyper_agent list \<Rightarrow> hyper_agent option \<times> agent_pool" where
  "select_round_robin_agent s ags =
     (if ags = [] then (None, s)
      else (Some (ags ! nat (round_robin_index s mod int (length ags))),
            s\<lparr>round_robin_index := round_robin_index s + 1\<rparr>))"

text \<open>\<open>_select_agent_for_task\<close>\<close>

definition active_list :: "agent_pool \<Rightarrow> hyper_agent list" where
  "active_list s = filter (\<lambda>a. status a = Active) (map snd (agents s))"

definition select_agent_for_task ::
  "floats \<Rightarrow> agent_pool \<Rightarrow> task \<Rightarrow> (py_error + hyper_agent option) \<times> agent_pool" where
  "select_agent_for_task fl s t =
     (if agents s = [] then (Inr None, s)
      else if active_list s = [] then (Inr None, s)
      else if get_priority t \<ge> 5
        then (map_sum id Some (select_best_agent fl (active_list s) (get_type t)), s)
      else if get_priority t \<ge> 3
        then (map_sum id Some
                (select_least_loaded_capable_agent fl s (active_list s) (get_type t)), s)
      else (case select_round_robin_agent s (active_list s) of (r, s') \<Rightarrow> (Inr r, s')))"

text \<open>Consecutive selections, one per task, each on the pool the one before left.\<close>

fun select_all ::
  "floats \<Rightarrow> agent_pool \<Rightarrow> task list \<Rightarrow> (py_error + hyper_agent option) list \<times> agent_pool" where
  "select_all fl s [] = ([], s)"
| "select_all fl s (t # ts) =
     (case select_agent_for_task fl s t of
        (r, s') \<Rightarrow> (case select_all fl s' ts of (rs, s'') \<Rightarrow> (r # rs, s'')))"

text \<open>
  Among the first \<open>M\<close> numbers \<open>k\<close>, how many have \<open>(m + k) mod n = j\<close>: how often
  a cursor starting at \<open>m\<close> lands on index \<open>j\<close> of \<open>n\<close> in \<open>M\<close> steps.
\<close>

definition hits :: "nat \<Rightarrow> nat \<Rightarrow> nat \<Rightarrow> nat \<Rightarrow> nat" where
  "hits n m j M = length (filter (\<lambda>k. (m + k) mod n = j) [0..<M])"

subsection \<open>Creating and removing executors\<close>

text \<open>\<open>_update_metrics\<close>: the counters are recomputed from the pool.\<close>

definition update_metrics :: "agent_pool \<Rightarrow> agent_pool" where
  "update_metrics s =
     s\<lparr>total_agents := int (length (agents s)),
       active_agents := int (length (active_list s)),
       tasks_in_queue := int (length (task_queue s))\<rparr>"

record settings =
  app_name :: string
  version :: string
  max_agents :: int
  websocket_heartbeat :: int

text \<open>The defaults of config/settings.py.\<close>

definition default_settings :: settings where
  "default_settings =
     \<lparr>app_name = ''Empirion Genesis System'', version = ''1.0.0'',
      max_agents = 100, websocket_heartbeat = 30\<rparr>"

text \<open>
  What the database does to a creation or a removal, apart from refusing a name that it
  holds already. Both run a database block before they touch the pool
  (\<open>HyperAgent.initialize\<close>, \<open>HyperAgent.shutdown\<close>) and another after (the log
  entry): either block can raise.
\<close>

datatype db_fault = NoFault | FailsEarly | FailsLate

text \<open>
  \<open>create_agent\<close>. An operation that can raise returns the exception or the value,
  together with the pool as the call leaves it. After its two guards the call builds the
  executor and runs \<open>HyperAgent.initialize\<close>, which inserts a row with the executor's name
  into the table of agents: the insertion is refused when the table holds the name, and
  the exception leaves \<open>create_agent\<close> before the pool is touched. Then the executor and
  its workload entry are written, one statement after the other, and the metrics updated.
\<close>

definition create_agent ::
  "floats \<Rightarrow> settings \<Rightarrow> agent_pool \<Rightarrow> string \<Rightarrow> string \<Rightarrow> string \<Rightarrow> db_fault \<Rightarrow>
     (py_error + string) \<times> agent_pool" where
  "create_agent fl cfg s uid nm ty fault =
     (if int (length (agents s)) \<ge> max_agents cfg
        then (Inl (MaxAgentsReached (max_agents cfg)), s)
      else if nm \<in> set (map (\<lambda>p. agent_name (snd p)) (agents s))
        then (Inl (NameExists nm), s)
      else if nm \<in> set (agent_rows s)
        then (Inl (IntegrityError nm), s)
      else if fault = FailsEarly
        then (Inl DatabaseError, s)
      else (if fault = FailsLate then Inl DatabaseError else Inr uid,
            update_metrics
              (s\<lparr>agent_rows := agent_rows s @ [nm],
                 agents := AList.update uid (new_agent fl uid nm ty) (agents s),
                 agent_workloads := AList.update uid 0 (agent_workloads s)\<rparr>)))"

text \<open>
  \<open>remove_agent\<close>. The executor's \<open>shutdown\<close> sets its status, writes to the
  database and sets the status again: when the database block raises, the exception
  leaves \<open>remove_agent\<close> with the executor still in the pool, shutting down. Then the
  two entries are deleted (\<open>del\<close> on a missing key raises \<open>KeyError\<close>), the
  metrics updated and the removal logged. The executor's row stays in the table of agents.
\<close>

definition remove_agent ::
  "agent_pool \<Rightarrow> string \<Rightarrow> db_fault \<Rightarrow> (py_error + bool) \<times> agent_pool" where
  "remove_agent s aid fault =
     (case map_of (agents s) aid of
        None \<Rightarrow> (Inr False, s)
      | Some agent \<Rightarrow>
          if fault = FailsEarly
          then (Inl DatabaseError,
                s\<lparr>agents := AList.map_entry aid (\<lambda>a. a\<lparr>status := ShuttingDown\<rparr>) (agents s)\<rparr>)
          else
            (let s1 = s\<lparr>agents := AList.delete aid (agents s)\<rparr>
             in case map_of (agent_workloads s1) aid of
                  None \<Rightarrow> (Inl (KeyError aid), s1)
                | Some _ \<Rightarrow>
                    (if fault = FailsLate then Inl DatabaseError else Inr True,
                     update_metrics
                       (s1\<lparr>agent_workloads := AList.delete aid (agent_workloads s1)\<rparr>))))"

subsection \<open>The autoscaler\<close>

text \<open>
  \<open>_remove_underperforming_agents\<close>: the loop runs over a snapshot of the executors and
  reads the size of the pool afresh in each round. \<open>faults\<close> says what the database
  does to the removal of each executor; an exception of \<open>remove_agent\<close> ends the loop.
\<close>

fun remove_underperforming_loop ::
  "floats \<Rightarrow> (string \<Rightarrow> db_fault) \<Rightarrow> hyper_agent list \<Rightarrow> agent_pool \<Rightarrow>
     (py_error + unit) \<times> agent_pool" where
  "remove_underperforming_loop fl faults [] s = (Inr (), s)"
| "remove_underperforming_loop fl faults (agent # rest) s =
     (if success_rate agent < f_lit fl (3 / 10) \<and> tasks_completed agent > 10 \<and> length (agents s) > 3
      then (case remove_agent s (agent_id agent) (faults (agent_id agent)) of
              (Inl e, s') \<Rightarrow> (Inl e, s')
            | (Inr _, s') \<Rightarrow> remove_underperforming_loop fl faults rest s')
      else remove_underperforming_loop fl faults rest s)"

definition remove_underperforming_agents ::
  "floats \<Rightarrow> (string \<Rightarrow> db_fault) \<Rightarrow> agent_pool \<Rightarrow> (py_error + unit) \<times> agent_pool" where
  "remove_underperforming_agents fl faults s =
     remove_underperforming_loop fl faults (map snd (agents s)) s"

text \<open>\<open>_optimize_agent_capabilities\<close>\<close>

definition optimize_agent_capabilities :: "floats \<Rightarrow> agent_pool \<Rightarrow> agent_pool" where
  "optimize_agent_capabilities fl s =
     s\<lparr>agents :=
         map (\<lambda>(k, a). (k, if success_rate a < f_lit fl (7 / 10)
                            then a\<lparr>learning_rate :=
                                    min (f_lit fl (1 / 10))
                                      (f_mul fl (learning_rate a) (f_lit fl (11 / 10)))\<rparr>
                            else a))
           (agents s)\<rparr>"

text \<open>Python's \<open>str\<close> on a natural number, for the generated names.\<close>

definition digit_char :: "nat \<Rightarrow> char" where
  "digit_char d = ''0123456789'' ! d"

function str_nat :: "nat \<Rightarrow> string" where
  "str_nat n = (if n < 10 then [digit_char n] else str_nat (n div 10) @ [digit_char (n mod 10)])"
  by pat_completeness auto
termination
  by (relation "measure id") auto

text \<open>The generated name \<open>f"auto_agent_{self.optimization_cycles}"\<close>\<close>

definition auto_agent_name :: "nat \<Rightarrow> string" where
  "auto_agent_name n = ''auto_agent_'' @ str_nat n"

text \<open>What one round of \<open>_optimize_pool\<close> prints about its scale-up step.\<close>

datatype scale_up_report = AutoCreated string | FailedToAutoCreate py_error

text \<open>
  The scale-up step of one round of \<open>_optimize_pool\<close>, after the cycle counter was
  incremented: the exception of \<open>create_agent\<close> is caught and printed.
\<close>

definition scale_up ::
  "floats \<Rightarrow> settings \<Rightarrow> string \<Rightarrow> db_fault \<Rightarrow> agent_pool \<Rightarrow>
     scale_up_report option \<times> agent_pool" where
  "scale_up fl cfg uid fault s =
     (if tasks_in_queue s > int (length (agents s)) * 5 \<and> int (length (agents s)) < max_agents cfg
      then (case create_agent fl cfg s uid (auto_agent_name (optimization_cycles s)) ''HyperAgent'' fault of
              (Inr _, s') \<Rightarrow> (Some (AutoCreated (auto_agent_name (optimization_cycles s))), s')
            | (Inl e, s') \<Rightarrow> (Some (FailedToAutoCreate e), s'))
      else (None, s))"

text \<open>
  The rest of the round: the removal of underperformers, then the optimisation. Nothing
  catches an exception of the removal.
\<close>

definition scale_down_and_optimize ::
  "floats \<Rightarrow> (string \<Rightarrow> db_fault) \<Rightarrow> agent_pool \<Rightarrow> (py_error + unit) \<times> agent_pool" where
  "scale_down_and_optimize fl faults s =
     (case (if length (agents s) > 3 then remove_underperforming_agents fl faults s
            else (Inr (), s)) of
        (Inl e, s') \<Rightarrow> (Inl e, s')
      | (Inr _, s') \<Rightarrow> (Inr (), optimize_agent_capabilities fl s'))"

text \<open>
  One round of the loop of \<open>_optimize_pool\<close>, with the identifier a creation would draw
  and what the database would do to the creation and to the removals.
\<close>

definition optimize_cycle ::
  "floats \<Rightarrow> settings \<Rightarrow> string \<Rightarrow> db_fault \<Rightarrow> (string \<Rightarrow> db_fault) \<Rightarrow> agent_pool \<Rightarrow>
     scale_up_report option \<times> (py_error + unit) \<times> agent_pool" where
  "optimize_cycle fl cfg uid fault faults s =
     (case scale_up fl cfg uid fault (s\<lparr>optimization_cycles := optimization_cycles s + 1\<rparr>) of
        (report, s') \<Rightarrow> (report, scale_down_and_optimize fl faults s'))"

subsection \<open>Tasks and workers\<close>

text \<open>
  How a call of \<open>HyperAgent.process_task\<close> ends. It first writes the task's row in a
  database block of its own, outside its \<open>try\<close>: an exception there leaves
  \<open>process_task\<close>. Inside the \<open>try\<close> the processing either goes through, and the task
  counts as a success, or raises, and the failure result is returned.
\<close>

datatype outcome = Completed | Failed | Raised

text \<open>
  The first database block cannot go through when the priority does not fit the 64-bit
  integer column of the table of tasks.
\<close>

definition task_row_rejected :: "task \<Rightarrow> bool" where
  "task_row_rejected t \<longleftrightarrow> \<not> (- (2 ^ 63) \<le> get_priority t \<and> get_priority t < 2 ^ 63)"

text \<open>
  \<open>HyperAgent.process_task\<close>, as far as it changes the executor: when the processing
  goes through, the running success rate is updated and the relevant capabilities are
  adapted within their bounds; otherwise the executor is left as it was.
\<close>

definition learn_from_task :: "floats \<Rightarrow> hyper_agent \<Rightarrow> string \<Rightarrow> capability list" where
  "learn_from_task fl a task_type =
     map (\<lambda>cap. if cap_name cap \<in> set (relevant_names task_type)
                 then cap\<lparr>level :=
                        max (f_lit fl (1 / 10))
                          (min (f_lit fl 10)
                             (f_mul fl (level cap)
                                (f_add fl 1 (f_mul fl (learning_rate a) (f_lit fl (1 / 10))))))\<rparr>
                 else cap)
       (capabilities a)"

definition process_task :: "floats \<Rightarrow> hyper_agent \<Rightarrow> task \<Rightarrow> outcome \<Rightarrow> hyper_agent" where
  "process_task fl a t oc =
     (if oc = Completed
      then (let n = tasks_completed a + 1
            in a\<lparr>tasks_completed := n,
                 success_rate :=
                   f_div fl (f_add fl (f_mul fl (success_rate a) (real_of_int (n - 1))) 1)
                     (real_of_int n),
                 capabilities := learn_from_task fl a (get_type t)\<rparr>)
      else a)"

text \<open>\<open>submit_task\<close>: the priority is filled in, the task is queued, the metric follows.\<close>

definition submit_task :: "agent_pool \<Rightarrow> task \<Rightarrow> agent_pool" where
  "submit_task s t =
     (let q = task_queue s @ [t\<lparr>tk_priority := Some (get_priority t)\<rparr>]
      in s\<lparr>task_queue := q, tasks_in_queue := int (length q)\<rparr>)"

text \<open>
  A worker is one coroutine running \<open>_worker\<close>. Between two of its suspension points it
  runs alone, so its loop body is two atomic steps: from a task leaving the queue to the
  call of \<open>process_task\<close>, and from the end of that call to the end of the round. In
  between the worker holds the task and the executor it chose.
\<close>

datatype worker = Idle | Awaiting task string

text \<open>
  First half of a round. An empty queue is the timeout. An exception (the selection
  raising, or \<open>+= 1\<close> on a missing key) is caught by the loop and the round ends.
\<close>

definition worker_take :: "floats \<Rightarrow> agent_pool \<Rightarrow> worker \<times> agent_pool" where
  "worker_take fl s =
     (case task_queue s of
        [] \<Rightarrow> (Idle, s)
      | t # q \<Rightarrow>
          (case select_agent_for_task fl (s\<lparr>task_queue := q\<rparr>) t of
             (Inl e, s') \<Rightarrow> (Idle, s')
           | (Inr None, s') \<Rightarrow> (Idle, s'\<lparr>task_queue := task_queue s' @ [t]\<rparr>)
           | (Inr (Some agent), s') \<Rightarrow>
               (case map_of (agent_workloads s') (agent_id agent) of
                  None \<Rightarrow> (Idle, s')
                | Some w \<Rightarrow>
                    (Awaiting t (agent_id agent),
                     s'\<lparr>agent_workloads := AList.update (agent_id agent) (w + 1) (agent_workloads s')\<rparr>))))"

text \<open>
  Second half of a round, when the call of \<open>process_task\<close> has ended. When it raised,
  the worker's \<open>except\<close> catches the exception and the round ends there: the statements
  after the call, the decrement first among them, are skipped. When it returned, the
  executor object carries the effect of the task, the workload is decremented (\<open>-= 1\<close>
  on a missing key raises and the round ends there), and the metrics follow.
\<close>

definition worker_finish ::
  "floats \<Rightarrow> agent_pool \<Rightarrow> task \<Rightarrow> string \<Rightarrow> outcome \<Rightarrow> agent_pool" where
  "worker_finish fl s t aid oc =
     (if oc = Raised then s
      else
        (let s1 = s\<lparr>agents := AList.map_entry aid (\<lambda>a. process_task fl a t oc) (agents s)\<rparr>
         in case map_of (agent_workloads s1) aid of
              None \<Rightarrow> s1
            | Some w \<Rightarrow>
                (let s2 = s1\<lparr>agent_workloads := AList.update aid (w - 1) (agent_workloads s1),
                            tasks_done := tasks_done s1 + 1\<rparr>
                 in if length (task_queue s2) > 0
                    then s2\<lparr>tasks_in_queue := int (length (task_queue s2))\<rparr>
                    else s2)))"

subsection \<open>The running pool\<close>

text \<open>
  The pool together with its worker coroutines. \<open>initialize\<close> sets the running flag and
  starts the workers (three in the source).
\<close>

record system =
  pool :: agent_pool
  workers :: "worker list"

definition initialize :: "nat \<Rightarrow> string list \<Rightarrow> system" where
  "initialize n rows = \<lparr>pool = (init_pool rows)\<lparr>is_running := True\<rparr>, workers = replicate n Idle\<rparr>"

text \<open>
  What can happen next in a running pool: a task is submitted, worker \<open>i\<close> runs the
  first or the second half of a round (with the way the call of \<open>process_task\<close> ended),
  an executor is created (with its fresh identifier, name and type) or removed through
  the API, the autoscaler runs a round (with the identifier a creation would draw), the
  monitor refreshes the metrics; each of the three with what the database does to it.
\<close>

datatype event =
    Submit task
  | Take nat
  | Finish nat outcome
  | Create string string string db_fault
  | Remove string db_fault
  | Optimize string db_fault "string \<Rightarrow> db_fault"
  | Monitor

text \<open>The identifiers in use: those of the pool and those the workers still hold.\<close>

fun held :: "worker \<Rightarrow> string list" where
  "held Idle = []"
| "held (Awaiting t aid) = [aid]"

definition used_ids :: "system \<Rightarrow> string set" where
  "used_ids sys = fst ` set (agents (pool sys)) \<union> set (concat (map held (workers sys)))"

text \<open>
  One event. The result is \<open>None\<close> when the event cannot happen in that state: the pool
  is stopped, the worker does not exist or is in the other half of its round, the call of
  \<open>process_task\<close> is said to get past a row that the database rejects, or the identifier
  is not fresh (\<open>uuid4\<close> does not repeat itself).
\<close>

definition step :: "floats \<Rightarrow> settings \<Rightarrow> system \<Rightarrow> event \<Rightarrow> system option" where
  "step fl cfg sys ev =
     (if \<not> is_running (pool sys) then None
      else case ev of
        Submit t \<Rightarrow> Some (sys\<lparr>pool := submit_task (pool sys) t\<rparr>)
      | Take i \<Rightarrow>
          (if i < length (workers sys) \<and> workers sys ! i = Idle
           then (case worker_take fl (pool sys) of
                   (w, s') \<Rightarrow> Some (sys\<lparr>pool := s', workers := (workers sys)[i := w]\<rparr>))
           else None)
      | Finish i oc \<Rightarrow>
          (if i < length (workers sys)
           then (case workers sys ! i of
                   Idle \<Rightarrow> None
                 | Awaiting t aid \<Rightarrow>
                     if task_row_rejected t \<and> oc \<noteq> Raised then None
                     else Some (sys\<lparr>pool := worker_finish fl (pool sys) t aid oc,
                                    workers := (workers sys)[i := Idle]\<rparr>))
           else None)
      | Create uid nm ty fault \<Rightarrow>
          (if uid \<in> used_ids sys then None
           else Some (sys\<lparr>pool := snd (create_agent fl cfg (pool sys) uid nm ty fault)\<rparr>))
      | Remove aid fault \<Rightarrow> Some (sys\<lparr>pool := snd (remove_agent (pool sys) aid fault)\<rparr>)
      | Optimize uid fault faults \<Rightarrow>
          (if uid \<in> used_ids sys then None
           else Some (sys\<lparr>pool := snd (snd (optimize_cycle fl cfg uid fault faults (pool sys)))\<rparr>))
      | Monitor \<Rightarrow> Some (sys\<lparr>pool := update_metrics (pool sys)\<rparr>))"

fun run :: "floats \<Rightarrow> settings \<Rightarrow> system \<Rightarrow> event list \<Rightarrow> system option" where
  "run fl cfg sys [] = Some sys"
| "run fl cfg sys (ev # evs) =
     (case step fl cfg sys ev of None \<Rightarrow> None | Some sys' \<Rightarrow> run fl cfg sys' evs)"

text \<open>The tasks dispatched to an executor whose processing has not ended: the workers awaiting it.\<close>

definition in_flight :: "system \<Rightarrow> string \<Rightarrow> nat" where
  "in_flight sys aid = length (filter (\<lambda>w. held w = [aid]) (workers sys))"

subsection \<open>Invariants of the running pool\<close>

text \<open>The agent map and the workload map have the same keys.\<close>

definition same_keys :: "agent_pool \<Rightarrow> bool" where
  "same_keys s \<longleftrightarrow> fst ` set (agents s) = fst ` set (agent_workloads s)"

text \<open>A dictionary holds each key once.\<close>

definition distinct_keys :: "agent_pool \<Rightarrow> bool" where
  "distinct_keys s \<longleftrightarrow> distinct (map fst (agents s))"

text \<open>The pool holds no more executors than the configured maximum.\<close>

definition within_limit :: "settings \<Rightarrow> agent_pool \<Rightarrow> bool" where
  "within_limit cfg s \<longleftrightarrow> int (length (agents s)) \<le> max_agents cfg"

text \<open>Every workload entry is the number of workers awaiting that executor.\<close>

definition workloads_match :: "system \<Rightarrow> bool" where
  "workloads_match sys \<longleftrightarrow>
     (\<forall>aid w. map_of (agent_workloads (pool sys)) aid = Some w \<longrightarrow> w = int (in_flight sys aid))"

text \<open>The queue length recorded in the metrics is not below the length of the queue.\<close>

definition queue_recorded :: "agent_pool \<Rightarrow> bool" where
  "queue_recorded s \<longleftrightarrow> int (length (task_queue s)) \<le> tasks_in_queue s"

text \<open>Whether the pool is running, and how many executors it holds.\<close>

definition running_size :: "system \<Rightarrow> bool \<times> nat" where
  "running_size sys = (is_running (pool sys), length (agents (pool sys)))"

section \<open>Example states\<close>

text \<open>Three executors as \<open>create_agent\<close> makes them, the first with a lower success rate.\<close>

definition demo_agents :: "(string \<times> hyper_agent) list" where
  "demo_agents =
     [(''id-alpha'', (new_agent exact_floats ''id-alpha'' ''Alpha'' ''HyperAgent'')\<lparr>success_rate := 1 / 2\<rparr>),
      (''id-beta'', new_agent exact_floats ''id-beta'' ''Beta'' ''HyperAgent''),
      (''id-gamma'', new_agent exact_floats ''id-gamma'' ''Gamma'' ''HyperAgent'')]"

definition demo_pool :: agent_pool where
  "demo_pool =
     (init_pool [''Alpha'', ''Beta'', ''Gamma''])
       \<lparr>agents := demo_agents,
        agent_workloads := [(''id-alpha'', 0), (''id-beta'', 2), (''id-gamma'', 1)],
        is_running := True\<rparr>"

definition demo_task :: "int \<Rightarrow> task" where
  "demo_task p = \<lparr>tk_type = Some ''pattern_recognition'', tk_priority = Some p\<rparr>"

text \<open>Three executors are created and one is removed through the API.\<close>

definition demo_events :: "event list" where
  "demo_events =
     [Create ''id-1'' ''Alpha'' ''HyperAgent'' NoFault, Create ''id-2'' ''Beta'' ''HyperAgent'' NoFault,
      Create ''id-3'' ''Gamma'' ''HyperAgent'' NoFault, Remove ''id-2'' NoFault]"

text \<open>
  One executor, two low-priority tasks, taken by two workers and returned in the other
  order, the second one failed.
\<close>

definition demo_work :: "event list" where
  "demo_work =
     [Create ''id-1'' ''Alpha'' ''HyperAgent'' NoFault,
      Submit \<lparr>tk_type = Some ''general'', tk_priority = None\<rparr>,
      Submit \<lparr>tk_type = Some ''general'', tk_priority = Some 2\<rparr>,
      Take 0, Take 2, Finish 2 Completed, Finish 0 Failed]"

text \<open>
  A task whose priority does not fit the column of the table of tasks, and a run in which
  it is submitted to a pool of one executor and taken by the first worker.
\<close>

definition oversized_task :: task where
  "oversized_task = \<lparr>tk_type = Some ''general'', tk_priority = Some (2 ^ 63)\<rparr>"

definition demo_dispatch :: "event list" where
  "demo_dispatch =
     [Create ''id-1'' ''Alpha'' ''HyperAgent'' NoFault, Submit oversized_task, Take 0]"





text \<open>The workload entries and the workers of a state.\<close>

definition work_view :: "system \<Rightarrow> (string \<times> int) list \<times> worker list" where
  "work_view sys = (agent_workloads (pool sys), workers sys)"
section \<open>Properties of the selection\<close>

subsection \<open>Best score\<close>

lemma best_loop_spec:
  "(best_loop fl ags ty (b0, s0) = (b0, s0) \<and> (\<forall>a\<in>set ags. score fl a ty \<le> s0)) \<or>
   (\<exists>i<length ags. best_loop fl ags ty (b0, s0) = (Some (ags ! i), score fl (ags ! i) ty) \<and>
      s0 < score fl (ags ! i) ty \<and>
      (\<forall>a\<in>set ags. score fl a ty \<le> score fl (ags ! i) ty) \<and>
      (\<forall>j<i. score fl (ags ! j) ty < score fl (ags ! i) ty))"
proof (induction ags arbitrary: b0 s0)
  case Nil
  show ?case by simp
next
  case (Cons a ags)
  show ?case
  proof (cases "score fl a ty > s0")
    case True
    from Cons.IH [of "Some a" "score fl a ty"] show ?thesis
    proof (elim disjE conjE exE)
      assume "best_loop fl ags ty (Some a, score fl a ty) = (Some a, score fl a ty)"
        and "\<forall>x\<in>set ags. score fl x ty \<le> score fl a ty"
      then have "0 < length (a # ags) \<and>
          best_loop fl (a # ags) ty (b0, s0) = (Some ((a # ags) ! 0), score fl ((a # ags) ! 0) ty) \<and>
          s0 < score fl ((a # ags) ! 0) ty \<and>
          (\<forall>x\<in>set (a # ags). score fl x ty \<le> score fl ((a # ags) ! 0) ty) \<and>
          (\<forall>j<0. score fl ((a # ags) ! j) ty < score fl ((a # ags) ! 0) ty)"
        using True by simp
      then show ?thesis by blast
    next
      fix i
      assume i: "i < length ags"
        and eq: "best_loop fl ags ty (Some a, score fl a ty) = (Some (ags ! i), score fl (ags ! i) ty)"
        and lt: "score fl a ty < score fl (ags ! i) ty"
        and mx: "\<forall>x\<in>set ags. score fl x ty \<le> score fl (ags ! i) ty"
        and fs: "\<forall>j<i. score fl (ags ! j) ty < score fl (ags ! i) ty"
      have "\<forall>j<Suc i. score fl ((a # ags) ! j) ty < score fl ((a # ags) ! Suc i) ty"
        using lt fs by (auto simp: less_Suc_eq_0_disj)
      then have "Suc i < length (a # ags) \<and>
          best_loop fl (a # ags) ty (b0, s0) = (Some ((a # ags) ! Suc i), score fl ((a # ags) ! Suc i) ty) \<and>
          s0 < score fl ((a # ags) ! Suc i) ty \<and>
          (\<forall>x\<in>set (a # ags). score fl x ty \<le> score fl ((a # ags) ! Suc i) ty) \<and>
          (\<forall>j<Suc i. score fl ((a # ags) ! j) ty < score fl ((a # ags) ! Suc i) ty)"
        using True i eq lt mx by auto
      then show ?thesis by blast
    qed
  next
    case False
    from Cons.IH [of b0 s0] show ?thesis
    proof (elim disjE conjE exE)
      assume "best_loop fl ags ty (b0, s0) = (b0, s0)" and "\<forall>x\<in>set ags. score fl x ty \<le> s0"
      then show ?thesis using False by auto
    next
      fix i
      assume i: "i < length ags"
        and eq: "best_loop fl ags ty (b0, s0) = (Some (ags ! i), score fl (ags ! i) ty)"
        and lt: "s0 < score fl (ags ! i) ty"
        and mx: "\<forall>x\<in>set ags. score fl x ty \<le> score fl (ags ! i) ty"
        and fs: "\<forall>j<i. score fl (ags ! j) ty < score fl (ags ! i) ty"
      have "\<forall>j<Suc i. score fl ((a # ags) ! j) ty < score fl ((a # ags) ! Suc i) ty"
        using lt fs False by (auto simp: less_Suc_eq_0_disj)
      moreover have "score fl a ty \<le> score fl (ags ! i) ty" using lt False by simp
      ultimately have "Suc i < length (a # ags) \<and>
          best_loop fl (a # ags) ty (b0, s0) = (Some ((a # ags) ! Suc i), score fl ((a # ags) ! Suc i) ty) \<and>
          s0 < score fl ((a # ags) ! Suc i) ty \<and>
          (\<forall>x\<in>set (a # ags). score fl x ty \<le> score fl ((a # ags) ! Suc i) ty) \<and>
          (\<forall>j<Suc i. score fl ((a # ags) ! j) ty < score fl ((a # ags) ! Suc i) ty)"
        using False i eq lt mx by auto
      then show ?thesis by blast
    qed
  qed
qed

lemma get_type_alt: "get_type t = (case tk_type t of Some x \<Rightarrow> x | None \<Rightarrow> ''general'')"
  by (simp add: get_type_def)

lemma relevant_names_alt:
  "relevant_names ty =
     (case map_of
               [(''data_analysis'', [''pattern_recognition'', ''adaptive_learning'', ''quantum_processing'']),
                (''pattern_recognition'', [''pattern_recognition'', ''memory_optimization'']),
                (''optimization'', [''quantum_processing'', ''adaptive_learning'', ''predictive_analysis'']),
                (''communication'', [''communication'', ''memory_optimization'']),
                (''learning'', [''adaptive_learning'', ''memory_optimization'', ''self_modification''])] ty of
        Some ns \<Rightarrow> ns
      | None \<Rightarrow> [''task_execution''])"
  by (simp only: relevant_names_def relevance_map_def)

lemma score_nonneg:
  assumes "0 \<le> success_rate a" and "\<forall>c\<in>set (capabilities a). 0 \<le> level c"
    and "\<forall>xs. (\<forall>x\<in>set xs. 0 \<le> x) \<longrightarrow> 0 \<le> f_sum fl xs"
    and "\<forall>x y. 0 \<le> x \<and> 0 \<le> y \<longrightarrow> 0 \<le> f_mul fl x y"
  shows "0 \<le> score fl a ty"
proof -
  have "\<forall>x\<in>set (map level (get_relevant_capabilities a ty)). 0 \<le> x"
    using assms(2) by (simp add: get_relevant_capabilities_def)
  then have "0 \<le> f_sum fl (map level (get_relevant_capabilities a ty))"
    using assms(3) by blast
  then show ?thesis using assms(1,4) by (simp add: score_def)
qed

lemma select_best_agent_first_max:
  assumes ne: "ags \<noteq> []" and nn: "\<forall>a\<in>set ags. 0 \<le> score fl a ty"
  shows "\<exists>i<length ags. select_best_agent fl ags ty = Inr (ags ! i) \<and>
           (\<forall>a\<in>set ags. score fl a ty \<le> score fl (ags ! i) ty) \<and>
           (\<forall>j<i. score fl (ags ! j) ty < score fl (ags ! i) ty)"
  using best_loop_spec [of fl ags ty None 0]
proof (elim disjE conjE exE)
  assume eq: "best_loop fl ags ty (None, 0) = (None, 0)" and le: "\<forall>a\<in>set ags. score fl a ty \<le> 0"
  from le nn have z: "\<forall>a\<in>set ags. score fl a ty = 0" by fastforce
  obtain a rest where ags: "ags = a # rest" using ne by (cases ags) auto
  have "select_best_agent fl ags ty = Inr (ags ! 0)"
    using eq ags by (simp add: select_best_agent_def)
  moreover have "\<forall>x\<in>set ags. score fl x ty \<le> score fl (ags ! 0) ty"
    using z ags by simp
  ultimately have "0 < length ags \<and> select_best_agent fl ags ty = Inr (ags ! 0) \<and>
           (\<forall>a\<in>set ags. score fl a ty \<le> score fl (ags ! 0) ty) \<and>
           (\<forall>j<0. score fl (ags ! j) ty < score fl (ags ! 0) ty)"
    using ne by simp
  then show ?thesis by blast
next
  fix i
  assume i: "i < length ags"
    and eq: "best_loop fl ags ty (None, 0) = (Some (ags ! i), score fl (ags ! i) ty)"
    and mx: "\<forall>a\<in>set ags. score fl a ty \<le> score fl (ags ! i) ty"
    and fs: "\<forall>j<i. score fl (ags ! j) ty < score fl (ags ! i) ty"
  have "select_best_agent fl ags ty = Inr (ags ! i)"
    using eq by (simp add: select_best_agent_def)
  then show ?thesis using i mx fs by blast
qed

text \<open>
  C1. A task of priority at least 5 goes to \<open>_select_best_agent\<close>. Take the list of
  the active executors of the pool, in the order of the agent map, not empty. The score of
  an executor is the sum of the levels of its capabilities whose names the relevance table
  gives for the task's type (\<open>task_execution\<close> alone for a type the table does not
  list, \<open>general\<close> being the type of a task without one), times its success rate: the
  sum and the product as the program computes them, on floats. Levels and success rates
  are not negative (the data model bounds levels to [0.1, 10] and success rates to
  [0, 1]), and a sum or a product of floats that are not negative is not negative. Then
  the executor returned has the greatest score, and every executor before it in the list
  has a strictly smaller score: it is the first of those with the greatest score, and the
  first of the list when all scores are zero. The pool is left as it was.
\<close>

theorem high_priority_selects_first_best_score:
  assumes "active = filter (\<lambda>a. status a = Active) (map snd (agents s))"
    and "active \<noteq> []"
    and "tk_priority t = Some p" and "5 \<le> p"
    and "ty = (case tk_type t of Some x \<Rightarrow> x | None \<Rightarrow> ''general'')"
    and "names =
           (case map_of
               [(''data_analysis'', [''pattern_recognition'', ''adaptive_learning'', ''quantum_processing'']),
                (''pattern_recognition'', [''pattern_recognition'', ''memory_optimization'']),
                (''optimization'', [''quantum_processing'', ''adaptive_learning'', ''predictive_analysis'']),
                (''communication'', [''communication'', ''memory_optimization'']),
                (''learning'', [''adaptive_learning'', ''memory_optimization'', ''self_modification''])] ty of
              Some ns \<Rightarrow> ns
            | None \<Rightarrow> [''task_execution''])"
    and "sc = (\<lambda>a. f_mul fl
                       (f_sum fl (map level (filter (\<lambda>c. cap_name c \<in> set names) (capabilities a))))
                       (success_rate a))"
    and "\<forall>a\<in>set active. 0 \<le> success_rate a \<and> (\<forall>c\<in>set (capabilities a). 0 \<le> level c)"
    and "\<forall>xs. (\<forall>x\<in>set xs. 0 \<le> x) \<longrightarrow> 0 \<le> f_sum fl xs"
    and "\<forall>x y. 0 \<le> x \<and> 0 \<le> y \<longrightarrow> 0 \<le> f_mul fl x y"
  shows "\<exists>i<length active.
           select_agent_for_task fl s t = (Inr (Some (active ! i)), s) \<and>
           (\<forall>a\<in>set active. sc a \<le> sc (active ! i)) \<and>
           (\<forall>j<i. sc (active ! j) < sc (active ! i)) \<and>
           ((\<forall>a\<in>set active. sc a = 0) \<longrightarrow> i = 0)"
proof -
  have act: "active = active_list s" using assms(1) by (simp add: active_list_def)
  have pr: "get_priority t = p" using assms(3) by (simp add: get_priority_def)
  have ty: "ty = get_type t" using assms(5) by (simp only: get_type_alt)
  have nm: "names = relevant_names ty" using assms(6) by (simp only: relevant_names_alt)
  have sc: "\<And>a. sc a = score fl a ty"
    unfolding assms(7) nm by (simp add: score_def get_relevant_capabilities_def)
  have nn: "\<forall>a\<in>set active. 0 \<le> score fl a ty"
    using assms(8) score_nonneg [OF _ _ assms(9,10)] by blast
  obtain i where i: "i < length active"
    and sel: "select_best_agent fl active ty = Inr (active ! i)"
    and mx: "\<forall>a\<in>set active. score fl a ty \<le> score fl (active ! i) ty"
    and fs: "\<forall>j<i. score fl (active ! j) ty < score fl (active ! i) ty"
    using select_best_agent_first_max [OF assms(2) nn] by blast
  have "agents s \<noteq> []" using assms(2) act by (auto simp: active_list_def)
  then have res: "select_agent_for_task fl s t = (Inr (Some (active ! i)), s)"
    using assms(2,4) sel act pr ty by (simp add: select_agent_for_task_def)
  have mx': "\<forall>a\<in>set active. sc a \<le> sc (active ! i)" using mx by (simp only: sc)
  have fs': "\<forall>j<i. sc (active ! j) < sc (active ! i)" using fs by (simp only: sc)
  have zero: "(\<forall>a\<in>set active. sc a = 0) \<longrightarrow> i = 0"
  proof
    assume z: "\<forall>a\<in>set active. sc a = 0"
    show "i = 0"
    proof (rule ccontr)
      assume "i \<noteq> 0"
      then have "0 < i" by simp
      with fs' have "sc (active ! 0) < sc (active ! i)" by blast
      moreover have "active ! 0 \<in> set active" "active ! i \<in> set active"
        using i assms(2) by simp_all
      ultimately show False using z by simp
    qed
  qed
  show ?thesis
    by (rule exI [of _ i]) (intro conjI i res mx' fs' zero)
qed

lemma active_demo:
  "filter (\<lambda>a. status a = Active) (map snd (agents demo_pool)) = map snd demo_agents"
  by (simp add: demo_pool_def demo_agents_def new_agent_def init_pool_def)

lemma demo_scores:
  "map (\<lambda>a. f_mul exact_floats
               (f_sum exact_floats
                  (map level (filter (\<lambda>c. cap_name c \<in> set [''pattern_recognition'', ''memory_optimization''])
                     (capabilities a))))
               (success_rate a))
     (map snd demo_agents) = [1, 2, 2]"
  by (simp add: demo_agents_def new_agent_def initialize_capabilities_def exact_floats_def)

theorem high_priority_selects_first_best_score_witness:
  "select_agent_for_task exact_floats demo_pool (demo_task 7) =
     (Inr (Some (snd (demo_agents ! 1))), demo_pool)"
proof -
  let ?names = "[''pattern_recognition'', ''memory_optimization'']"
  let ?sc = "\<lambda>a. f_mul exact_floats
               (f_sum exact_floats (map level (filter (\<lambda>c. cap_name c \<in> set ?names) (capabilities a))))
               (success_rate a)"
  let ?active = "map snd demo_agents"
  have h1: "?active = filter (\<lambda>a. status a = Active) (map snd (agents demo_pool))"
    by (simp only: active_demo)
  have h2: "?active \<noteq> []" by (simp add: demo_agents_def)
  have h3: "tk_priority (demo_task 7) = Some 7" by (simp add: demo_task_def)
  have h4: "(5::int) \<le> 7" by simp
  have h5: "''pattern_recognition'' =
      (case tk_type (demo_task 7) of Some x \<Rightarrow> x | None \<Rightarrow> ''general'')"
    by (simp add: demo_task_def)
  have h6: "?names =
      (case map_of
               [(''data_analysis'', [''pattern_recognition'', ''adaptive_learning'', ''quantum_processing'']),
                (''pattern_recognition'', [''pattern_recognition'', ''memory_optimization'']),
                (''optimization'', [''quantum_processing'', ''adaptive_learning'', ''predictive_analysis'']),
                (''communication'', [''communication'', ''memory_optimization'']),
                (''learning'', [''adaptive_learning'', ''memory_optimization'', ''self_modification''])] ''pattern_recognition'' of
         Some ns \<Rightarrow> ns
       | None \<Rightarrow> [''task_execution''])"
    by simp
  have h8: "\<forall>a\<in>set ?active. 0 \<le> success_rate a \<and> (\<forall>c\<in>set (capabilities a). 0 \<le> level c)"
    by (simp add: demo_agents_def new_agent_def initialize_capabilities_def exact_floats_def)
  have h9: "\<forall>xs. (\<forall>x\<in>set xs. 0 \<le> x) \<longrightarrow> 0 \<le> f_sum exact_floats xs"
    by (simp add: exact_floats_def sum_list_nonneg)
  have h10: "\<forall>x y. 0 \<le> x \<and> 0 \<le> y \<longrightarrow> 0 \<le> f_mul exact_floats x y"
    by (simp add: exact_floats_def)
  from high_priority_selects_first_best_score [OF h1 h2 h3 h4 h5 h6 refl h8 h9 h10]
  obtain i where i: "i < length ?active"
    and sel: "select_agent_for_task exact_floats demo_pool (demo_task 7) =
                (Inr (Some (?active ! i)), demo_pool)"
    and mx: "\<forall>a\<in>set ?active. ?sc a \<le> ?sc (?active ! i)"
    and fs: "\<forall>j<i. ?sc (?active ! j) < ?sc (?active ! i)"
    by (elim exE conjE)
  have len: "length ?active = 3" by (simp add: demo_agents_def)
  have sc: "\<And>k. k < 3 \<Longrightarrow> ?sc (?active ! k) = [1, 2, 2] ! k"
    using nth_map [of _ ?active ?sc] len by (simp only: demo_scores)
  have s0: "?sc (?active ! 0) = 1" and s1: "?sc (?active ! 1) = 2" and s2: "?sc (?active ! 2) = 2"
    using sc [of 0] sc [of 1] sc [of 2] by simp_all
  have "?active ! 1 \<in> set ?active" using len by (simp only: nth_mem)
  with mx have ge: "2 \<le> ?sc (?active ! i)" using s1 by fastforce
  have "i = 0 \<or> i = 1 \<or> i = 2" using i len by arith
  then have "i = 1"
  proof (elim disjE)
    assume "i = 0" with ge s0 show ?thesis by simp
  next
    assume "i = 1" then show ?thesis .
  next
    assume i2: "i = 2"
    then have "?sc (?active ! 1) < ?sc (?active ! 2)" using fs by simp
    with s1 s2 show ?thesis by simp
  qed
  then have "?active ! i = snd (demo_agents ! 1)" using len by simp
  with sel show ?thesis by simp
qed

subsection \<open>Least loaded among the capable\<close>

lemma hd_sort_key_first_min:
  fixes f :: "'a \<Rightarrow> 'k::linorder"
  assumes "xs \<noteq> []"
  shows "\<exists>i<length xs. hd (sort_key f xs) = xs ! i \<and>
           (\<forall>x\<in>set xs. f (xs ! i) \<le> f x) \<and> (\<forall>j<i. f (xs ! i) < f (xs ! j))"
  using assms
proof (induction xs)
  case Nil
  then show ?case by simp
next
  case (Cons x ys)
  show ?case
  proof (cases "ys = []")
    case True
    then show ?thesis by simp
  next
    case False
    from Cons.IH [OF False] obtain i where i: "i < length ys"
      and hd: "hd (sort_key f ys) = ys ! i"
      and mn: "\<forall>y\<in>set ys. f (ys ! i) \<le> f y"
      and fs: "\<forall>j<i. f (ys ! i) < f (ys ! j)"
      by blast
    have "sort_key f ys \<noteq> []" using False by (metis length_sort length_0_conv)
    then obtain m rest where srt: "sort_key f ys = m # rest" by (cases "sort_key f ys") auto
    with hd have m: "m = ys ! i" by simp
    show ?thesis
    proof (cases "f x \<le> f m")
      case True
      then have "hd (sort_key f (x # ys)) = (x # ys) ! 0" using srt by simp
      moreover have "\<forall>y\<in>set (x # ys). f ((x # ys) ! 0) \<le> f y"
        using True mn m by auto
      ultimately show ?thesis by (intro exI [of _ 0]) simp
    next
      case False
      then have "hd (sort_key f (x # ys)) = (x # ys) ! Suc i" using srt m by simp
      moreover have "\<forall>y\<in>set (x # ys). f ((x # ys) ! Suc i) \<le> f y"
        using False mn m by auto
      moreover have "\<forall>j<Suc i. f ((x # ys) ! Suc i) < f ((x # ys) ! j)"
        using False fs m by (auto simp: less_Suc_eq_0_disj)
      ultimately show ?thesis using i by (intro exI [of _ "Suc i"]) simp
    qed
  qed
qed

lemma avg_capability_alt:
  "avg_capability fl a ty =
     (let relevant = filter (\<lambda>c. cap_name c \<in> set (relevant_names ty)) (capabilities a)
      in if relevant = [] then f_lit fl (5 / 10)
         else f_div fl (f_sum fl (map level relevant)) (real (length relevant)))"
  by (simp add: avg_capability_def get_relevant_capabilities_def Let_def)

lemma select_least_loaded_first_min:
  assumes "ags \<noteq> []"
    and "cands = (if filter (\<lambda>a. f_lit fl (7 / 10) \<le> avg_capability fl a ty) ags = [] then ags
                  else filter (\<lambda>a. f_lit fl (7 / 10) \<le> avg_capability fl a ty) ags)"
  shows "\<exists>i<length cands. select_least_loaded_capable_agent fl s ags ty = Inr (cands ! i) \<and>
           (\<forall>a\<in>set cands. workload_of s (cands ! i) \<le> workload_of s a) \<and>
           (\<forall>j<i. workload_of s (cands ! i) < workload_of s (cands ! j))"
proof -
  let ?pairs = "map (\<lambda>a. (a, workload_of s a)) cands"
  have cap: "capable_agents fl s ags ty = ?pairs"
    unfolding assms(2) by (simp add: capable_agents_def Let_def)
  have ne: "cands \<noteq> []" using assms by (simp split: if_splits)
  then have pne: "?pairs \<noteq> []" by simp
  from hd_sort_key_first_min [OF pne, of snd] obtain i where i: "i < length ?pairs"
    and hd: "hd (sort_key snd ?pairs) = ?pairs ! i"
    and mn: "\<forall>p\<in>set ?pairs. snd (?pairs ! i) \<le> snd p"
    and fs: "\<forall>j<i. snd (?pairs ! i) < snd (?pairs ! j)"
    by blast
  have i': "i < length cands" using i by simp
  have "sort_key snd ?pairs \<noteq> []" using pne by (metis length_sort length_0_conv)
  then obtain p rest where srt: "sort_key snd ?pairs = p # rest"
    by (cases "sort_key snd ?pairs") auto
  with hd have "p = ?pairs ! i" by simp
  then have "fst p = cands ! i" using i' by simp
  then have sel: "select_least_loaded_capable_agent fl s ags ty = Inr (cands ! i)"
    using srt cap by (simp add: select_least_loaded_capable_agent_def)
  have mn': "\<forall>a\<in>set cands. workload_of s (cands ! i) \<le> workload_of s a"
    using mn i' by simp
  have fs': "\<forall>j<i. workload_of s (cands ! i) < workload_of s (cands ! j)"
    using fs i' by simp
  show ?thesis by (rule exI [of _ i]) (intro conjI i' sel mn' fs')
qed

text \<open>
  C8. A task of priority 3 or 4 goes to \<open>_select_least_loaded_capable_agent\<close>. Take
  the list of the active executors of the pool, not empty. The mean of an executor is the
  sum of the levels of its capabilities relevant to the task's type divided by their
  number, as the program computes it on floats, and 0.5 when it has no relevant
  capability. The executors considered are those whose mean is at least 0.7, or all the
  active executors when there is none such. The load of an executor is its entry in the
  workload map, 0 when it has none. The executor returned is one of those considered,
  none of them has a smaller load, and every one before it has a strictly greater load, so
  ties go to the first encountered. The pool is left as it was.
\<close>

theorem medium_priority_selects_least_loaded_capable:
  assumes "active = filter (\<lambda>a. status a = Active) (map snd (agents s))"
    and "active \<noteq> []"
    and "tk_priority t = Some p" and "3 \<le> p" and "p < 5"
    and "ty = (case tk_type t of Some x \<Rightarrow> x | None \<Rightarrow> ''general'')"
    and "names =
           (case map_of
               [(''data_analysis'', [''pattern_recognition'', ''adaptive_learning'', ''quantum_processing'']),
                (''pattern_recognition'', [''pattern_recognition'', ''memory_optimization'']),
                (''optimization'', [''quantum_processing'', ''adaptive_learning'', ''predictive_analysis'']),
                (''communication'', [''communication'', ''memory_optimization'']),
                (''learning'', [''adaptive_learning'', ''memory_optimization'', ''self_modification''])] ty of
              Some ns \<Rightarrow> ns
            | None \<Rightarrow> [''task_execution''])"
    and "mean = (\<lambda>a. let relevant = filter (\<lambda>c. cap_name c \<in> set names) (capabilities a)
                     in if relevant = [] then f_lit fl (5 / 10)
                        else f_div fl (f_sum fl (map level relevant)) (real (length relevant)))"
    and "qualifying = filter (\<lambda>a. f_lit fl (7 / 10) \<le> mean a) active"
    and "considered = (if qualifying = [] then active else qualifying)"
    and "load = (\<lambda>a. case map_of (agent_workloads s) (agent_id a) of Some w \<Rightarrow> w | None \<Rightarrow> 0)"
  shows "\<exists>i<length considered.
           select_agent_for_task fl s t = (Inr (Some (considered ! i)), s) \<and>
           (\<forall>a\<in>set considered. load (considered ! i) \<le> load a) \<and>
           (\<forall>j<i. load (considered ! i) < load (considered ! j))"
proof -
  have act: "active = active_list s" using assms(1) by (simp add: active_list_def)
  have pr: "get_priority t = p" using assms(3) by (simp add: get_priority_def)
  have ty: "ty = get_type t" using assms(6) by (simp only: get_type_alt)
  have nm: "names = relevant_names ty" using assms(7) by (simp only: relevant_names_alt)
  have mean: "mean = (\<lambda>a. avg_capability fl a ty)"
    unfolding assms(8) nm by (simp only: avg_capability_alt)
  have load: "load = workload_of s"
    unfolding assms(11) by (rule ext) (simp only: workload_of_def)
  have c: "considered =
      (if filter (\<lambda>a. f_lit fl (7 / 10) \<le> avg_capability fl a ty) active = [] then active
       else filter (\<lambda>a. f_lit fl (7 / 10) \<le> avg_capability fl a ty) active)"
    unfolding assms(10) assms(9) mean by (rule refl)
  from select_least_loaded_first_min [OF assms(2) c, of s] obtain i where i: "i < length considered"
    and sel: "select_least_loaded_capable_agent fl s active ty = Inr (considered ! i)"
    and mn: "\<forall>a\<in>set considered. workload_of s (considered ! i) \<le> workload_of s a"
    and fs: "\<forall>j<i. workload_of s (considered ! i) < workload_of s (considered ! j)"
    by blast
  have "agents s \<noteq> []" using assms(2) act by (auto simp: active_list_def)
  then have res: "select_agent_for_task fl s t = (Inr (Some (considered ! i)), s)"
    using assms(2,4,5) sel act pr ty by (simp add: select_agent_for_task_def)
  have mn': "\<forall>a\<in>set considered. load (considered ! i) \<le> load a" using mn by (simp only: load)
  have fs': "\<forall>j<i. load (considered ! i) < load (considered ! j)" using fs by (simp only: load)
  show ?thesis by (rule exI [of _ i]) (intro conjI i res mn' fs')
qed

lemma demo_means:
  "map (\<lambda>a. let relevant = filter (\<lambda>c. cap_name c \<in> set [''pattern_recognition'', ''memory_optimization''])
                               (capabilities a)
             in if relevant = [] then f_lit exact_floats (5 / 10)
                else f_div exact_floats (f_sum exact_floats (map level relevant)) (real (length relevant)))
     (map snd demo_agents) = [1, 1, 1]"
  by (simp add: demo_agents_def new_agent_def initialize_capabilities_def exact_floats_def)

lemma demo_loads:
  "map (\<lambda>a. case map_of (agent_workloads demo_pool) (agent_id a) of Some w \<Rightarrow> w | None \<Rightarrow> 0)
     (map snd demo_agents) = [0, 2, 1]"
  by (simp add: demo_agents_def demo_pool_def new_agent_def)

theorem medium_priority_selects_least_loaded_capable_witness:
  "select_agent_for_task exact_floats demo_pool (demo_task 3) =
     (Inr (Some (snd (demo_agents ! 0))), demo_pool)"
proof -
  let ?names = "[''pattern_recognition'', ''memory_optimization'']"
  let ?mean = "\<lambda>a. let relevant = filter (\<lambda>c. cap_name c \<in> set ?names) (capabilities a)
                   in if relevant = [] then f_lit exact_floats (5 / 10)
                      else f_div exact_floats (f_sum exact_floats (map level relevant)) (real (length relevant))"
  let ?load = "\<lambda>a. case map_of (agent_workloads demo_pool) (agent_id a) of Some w \<Rightarrow> w | None \<Rightarrow> 0"
  let ?active = "map snd demo_agents"
  have h1: "?active = filter (\<lambda>a. status a = Active) (map snd (agents demo_pool))"
    by (simp only: active_demo)
  have h2: "?active \<noteq> []" by (simp add: demo_agents_def)
  have h3: "tk_priority (demo_task 3) = Some 3" by (simp add: demo_task_def)
  have h4: "(3::int) \<le> 3" and h5: "(3::int) < 5" by simp_all
  have h6: "''pattern_recognition'' =
      (case tk_type (demo_task 3) of Some x \<Rightarrow> x | None \<Rightarrow> ''general'')"
    by (simp add: demo_task_def)
  have h7: "?names =
      (case map_of
               [(''data_analysis'', [''pattern_recognition'', ''adaptive_learning'', ''quantum_processing'']),
                (''pattern_recognition'', [''pattern_recognition'', ''memory_optimization'']),
                (''optimization'', [''quantum_processing'', ''adaptive_learning'', ''predictive_analysis'']),
                (''communication'', [''communication'', ''memory_optimization'']),
                (''learning'', [''adaptive_learning'', ''memory_optimization'', ''self_modification''])] ''pattern_recognition'' of
         Some ns \<Rightarrow> ns
       | None \<Rightarrow> [''task_execution''])"
    by simp
  have len: "length ?active = 3" by (simp add: demo_agents_def)
  have means: "\<And>a. a \<in> set ?active \<Longrightarrow> ?mean a = 1"
  proof -
    fix a assume "a \<in> set ?active"
    then have "?mean a \<in> set (map ?mean ?active)" by (subst set_map) (rule imageI)
    then show "?mean a = 1" by (simp only: demo_means) simp
  qed
  have q: "?active = filter (\<lambda>a. f_lit exact_floats (7 / 10) \<le> ?mean a) ?active"
  proof -
    have "\<forall>a\<in>set ?active. f_lit exact_floats (7 / 10) \<le> ?mean a"
      using means by (simp add: exact_floats_def)
    then show ?thesis by (simp only: filter_True)
  qed
  have c: "?active = (if ?active = [] then ?active else ?active)" by simp
  from medium_priority_selects_least_loaded_capable [OF h1 h2 h3 h4 h5 h6 h7 refl q c refl]
  obtain i where i: "i < length ?active"
    and sel: "select_agent_for_task exact_floats demo_pool (demo_task 3) =
                (Inr (Some (?active ! i)), demo_pool)"
    and mn: "\<forall>a\<in>set ?active. ?load (?active ! i) \<le> ?load a"
    by (elim exE conjE)
  have ld: "\<And>k. k < 3 \<Longrightarrow> ?load (?active ! k) = [0, 2, 1] ! k"
    using nth_map [of _ ?active ?load] len by (simp only: demo_loads)
  have l0: "?load (?active ! 0) = 0" and l1: "?load (?active ! 1) = 2" and l2: "?load (?active ! 2) = 1"
    using ld [of 0] ld [of 1] ld [of 2] by simp_all
  have "?active ! 0 \<in> set ?active" using len by (simp only: nth_mem)
  with mn have le: "?load (?active ! i) \<le> 0" using l0 by fastforce
  have "i = 0 \<or> i = 1 \<or> i = 2" using i len by arith
  then have "i = 0"
  proof (elim disjE)
    assume "i = 0" then show ?thesis .
  next
    assume "i = 1" with le l1 show ?thesis by simp
  next
    assume "i = 2" with le l2 show ?thesis by simp
  qed
  then have "?active ! i = snd (demo_agents ! 0)" using len by simp
  with sel show ?thesis by simp
qed

subsection \<open>Round robin\<close>

lemma select_low_priority:
  assumes "active_list s \<noteq> []" and "get_priority t < 3"
  shows "select_agent_for_task fl s t =
           (Inr (Some (active_list s ! nat (round_robin_index s mod int (length (active_list s))))),
            s\<lparr>round_robin_index := round_robin_index s + 1\<rparr>)"
proof -
  have "agents s \<noteq> []" using assms(1) by (auto simp: active_list_def)
  then show ?thesis
    using assms by (simp add: select_agent_for_task_def select_round_robin_agent_def)
qed

lemma active_list_cursor [simp]:
  "active_list (s\<lparr>round_robin_index := c\<rparr>) = active_list s"
  by (simp add: active_list_def)

lemma select_all_low_priority:
  assumes "active_list s \<noteq> []" and "\<forall>t\<in>set ts. get_priority t < 3"
  shows "select_all fl s ts =
           (map (\<lambda>k. Inr (Some (active_list s !
                   nat ((round_robin_index s + int k) mod int (length (active_list s))))))
              [0..<length ts],
            s\<lparr>round_robin_index := round_robin_index s + int (length ts)\<rparr>)"
  using assms
proof (induction ts arbitrary: s)
  case Nil
  then show ?case by simp
next
  case (Cons t ts)
  let ?s' = "s\<lparr>round_robin_index := round_robin_index s + 1\<rparr>"
  have step: "select_agent_for_task fl s t =
      (Inr (Some (active_list s ! nat (round_robin_index s mod int (length (active_list s))))), ?s')"
    using Cons.prems by (simp add: select_low_priority)
  have ne: "active_list ?s' \<noteq> []" using Cons.prems(1) by simp
  have low: "\<forall>t\<in>set ts. get_priority t < 3" using Cons.prems(2) by simp
  have ih: "select_all fl ?s' ts =
      (map (\<lambda>k. Inr (Some (active_list s !
              nat ((round_robin_index s + int (Suc k)) mod int (length (active_list s))))))
         [0..<length ts],
       s\<lparr>round_robin_index := round_robin_index s + int (length (t # ts))\<rparr>)"
    using Cons.IH [OF ne low] by (simp add: add.assoc)
  have rhs: "map (\<lambda>k. Inr (Some (active_list s !
                   nat ((round_robin_index s + int k) mod int (length (active_list s))))))
              [0..<length (t # ts)] =
      Inr (Some (active_list s ! nat (round_robin_index s mod int (length (active_list s))))) #
      map (\<lambda>k. Inr (Some (active_list s !
              nat ((round_robin_index s + int (Suc k)) mod int (length (active_list s))))))
         [0..<length ts]"
    by (simp add: map_upt_Suc del: upt_Suc)
  show ?case
    unfolding rhs by (simp only: select_all.simps step ih prod.case)
qed

lemma nat_mod_shift:
  assumes "0 < n"
  shows "nat ((c + int k) mod int n) = (nat (c mod int n) + k) mod n"
proof -
  have nn: "0 \<le> c mod int n" using assms by simp
  have "(c + int k) mod int n = (c mod int n + int k) mod int n"
    by (simp add: mod_add_left_eq)
  also have "\<dots> = (int (nat (c mod int n)) + int k) mod int n"
    using nn by simp
  also have "\<dots> = int ((nat (c mod int n) + k) mod n)"
    by (simp add: zmod_int)
  finally show ?thesis by simp
qed

lemma map_nth_rotate:
  assumes "xs \<noteq> []"
  shows "map (\<lambda>k. xs ! ((m + k) mod length xs)) [0..<length xs] = rotate m xs"
  by (rule nth_equalityI) (simp_all add: nth_rotate)

lemma count_list_distinct:
  "distinct xs \<Longrightarrow> x \<in> set xs \<Longrightarrow> count_list xs x = 1"
  by (induction xs) auto


lemma hits_full:
  assumes "j < n"
  shows "hits n m j n = 1"
proof -
  have n: "0 < n" using assms by simp
  have "map (\<lambda>k. (m + k) mod n) [0..<n] = rotate m [0..<n]"
    by (rule nth_equalityI) (simp_all add: nth_rotate)
  then have d: "distinct (map (\<lambda>k. (m + k) mod n) [0..<n])"
    and s: "j \<in> set (map (\<lambda>k. (m + k) mod n) [0..<n])"
    using assms by simp_all
  have sw: "(\<lambda>k. (m + k) mod n = j) = (\<lambda>k. j = (m + k) mod n)" by auto
  have "hits n m j n = count_list (map (\<lambda>k. (m + k) mod n) [0..<n]) j"
    unfolding hits_def count_list_eq_length_filter filter_map comp_def sw
    by simp
  also have "\<dots> = 1"
    using d s by (rule count_list_distinct)
  finally show ?thesis .
qed

lemma hits_mono: "M \<le> M' \<Longrightarrow> hits n m j M \<le> hits n m j M'"
proof -
  assume "M \<le> M'"
  then obtain d where "M' = M + d" using le_Suc_ex by blast
  then have "[0..<M'] = [0..<M] @ [M..<M + d]"
    using upt_add_eq_append [of 0 M d] by simp
  then show ?thesis by (simp add: hits_def)
qed

lemma hits_add_full:
  assumes "j < n"
  shows "hits n m j (n + M) = 1 + hits n m j M"
proof -
  have "[0..<n + M] = [0..<n] @ [n..<n + M]"
    using upt_add_eq_append [of 0 n M] by simp
  also have "[n..<n + M] = map (\<lambda>i. i + n) [0..<M]"
    using map_add_upt [of n M] by (simp only: add.commute [of M n])
  finally have "hits n m j (n + M) = hits n m j n
      + length (filter (\<lambda>k. (m + k) mod n = j) (map (\<lambda>i. i + n) [0..<M]))"
    by (simp add: hits_def)
  moreover have "\<And>k. (m + (k + n)) mod n = (m + k) mod n"
    by (metis add.assoc mod_add_self2)
  then have "length (filter (\<lambda>k. (m + k) mod n = j) (map (\<lambda>i. i + n) [0..<M])) = hits n m j M"
    by (simp add: hits_def filter_map comp_def)
  ultimately show ?thesis using hits_full [OF assms] by simp
qed

lemma hits_mult:
  assumes "j < n"
  shows "hits n m j (q * n + r) = q + hits n m j r"
proof (induction q)
  case 0
  show ?case by simp
next
  case (Suc q)
  have "Suc q * n + r = n + (q * n + r)" by simp
  then have "hits n m j (Suc q * n + r) = hits n m j (n + (q * n + r))" by (simp only:)
  also have "\<dots> = 1 + hits n m j (q * n + r)" by (rule hits_add_full [OF assms])
  also have "\<dots> = Suc q + hits n m j r" using Suc by simp
  finally show ?case .
qed

lemma hits_bounds:
  assumes "j < n"
  shows "(hits n m j M = M div n \<or> hits n m j M = M div n + 1) \<and>
         (n dvd M \<longrightarrow> hits n m j M = M div n)"
proof -
  have n: "0 < n" using assms by simp
  have eq: "hits n m j M = M div n + hits n m j (M mod n)"
    using hits_mult [OF assms, of m "M div n" "M mod n"] by simp
  have "hits n m j (M mod n) \<le> hits n m j n"
    using n by (intro hits_mono) simp
  then have le: "hits n m j (M mod n) \<le> 1" using hits_full [OF assms] by simp
  have z: "hits n m j 0 = 0" by (simp add: hits_def)
  have "n dvd M \<Longrightarrow> hits n m j M = M div n"
    using eq z by (simp add: dvd_eq_mod_eq_0)
  moreover have "hits n m j M = M div n \<or> hits n m j M = M div n + 1"
    using eq le by linarith
  ultimately show ?thesis by blast
qed

lemma count_picks:
  assumes "distinct xs" and "j < length xs"
  shows "count_list (map (\<lambda>k. (Inr (Some (xs ! ((m + k) mod length xs))) :: py_error + 'a option)) [0..<M])
           (Inr (Some (xs ! j))) = hits (length xs) m j M"
proof -
  have pos: "0 < length xs" using assms(2) by linarith
  have "\<And>k. (m + k) mod length xs < length xs" by (rule mod_less_divisor [OF pos])
  then have "\<And>k. (xs ! j = xs ! ((m + k) mod length xs)) = ((m + k) mod length xs = j)"
    using assms nth_eq_iff_index_eq [OF assms(1)] by (metis (no_types))
  then show ?thesis
    unfolding hits_def count_list_eq_length_filter filter_map comp_def by simp
qed

text \<open>
  C7. Tasks of priority below 3 go to \<open>_select_round_robin_agent\<close>. Over a fixed
  non-empty list of \<open>n\<close> active executors and from any cursor value \<open>c\<close>, consecutive
  selections pick the executors at the indices \<open>(c + k) mod n\<close> for \<open>k = 0, 1, ...\<close>,
  and the cursor ends at \<open>c\<close> plus the number of selections, one more per selection;
  \<open>n\<close> selections pick the list rotated by \<open>c mod n\<close>, each executor once; and over any
  number \<open>M\<close> of selections (100, say) each executor is picked \<open>M div n\<close> times or once
  more, exactly \<open>M div n\<close> times when \<open>n\<close> divides \<open>M\<close>.
\<close>

theorem low_priority_round_robin:
  assumes "active_list s \<noteq> []" and "\<forall>t\<in>set ts. get_priority t < 3"
    and "n = length (active_list s)" and "c = round_robin_index s"
  shows "fst (select_all fl s ts) =
           map (\<lambda>k. Inr (Some (active_list s ! nat ((c + int k) mod int n)))) [0..<length ts] \<and>
         round_robin_index (snd (select_all fl s ts)) = c + int (length ts) \<and>
         active_list (snd (select_all fl s ts)) = active_list s \<and>
         (length ts = n \<longrightarrow>
            fst (select_all fl s ts) = map (\<lambda>a. Inr (Some a)) (rotate (nat (c mod int n)) (active_list s))) \<and>
         (distinct (active_list s) \<longrightarrow>
            (\<forall>a\<in>set (active_list s).
               (count_list (fst (select_all fl s ts)) (Inr (Some a)) = length ts div n \<or>
                count_list (fst (select_all fl s ts)) (Inr (Some a)) = length ts div n + 1) \<and>
               (n dvd length ts \<longrightarrow>
                  count_list (fst (select_all fl s ts)) (Inr (Some a)) = length ts div n)))"
proof -
  let ?xs = "active_list s"
  let ?m = "nat (c mod int n)"
  have n: "0 < n" using assms(1,3) by simp
  have run: "select_all fl s ts =
      (map (\<lambda>k. Inr (Some (?xs ! nat ((c + int k) mod int n)))) [0..<length ts],
       s\<lparr>round_robin_index := c + int (length ts)\<rparr>)"
    using select_all_low_priority [OF assms(1,2)] assms(3,4) by simp
  have picks: "fst (select_all fl s ts) =
      map (\<lambda>k. Inr (Some (?xs ! ((?m + k) mod length ?xs)))) [0..<length ts]"
    using run n assms(3) by (simp add: nat_mod_shift)
  have p1: "fst (select_all fl s ts) =
      map (\<lambda>k. Inr (Some (?xs ! nat ((c + int k) mod int n)))) [0..<length ts]"
    using run by simp
  have p2: "round_robin_index (snd (select_all fl s ts)) = c + int (length ts)"
    using run by simp
  have p3: "active_list (snd (select_all fl s ts)) = ?xs"
    using run by simp
  have p4: "length ts = n \<longrightarrow>
      fst (select_all fl s ts) = map (\<lambda>a. Inr (Some a)) (rotate ?m ?xs)"
  proof
    assume len: "length ts = n"
    have rot: "rotate ?m ?xs = map (\<lambda>k. ?xs ! ((?m + k) mod length ?xs)) [0..<length ?xs]"
      using map_nth_rotate [OF assms(1), of ?m] by simp
    have A: "map (\<lambda>a. Inr (Some a)) (rotate ?m ?xs) =
        map (\<lambda>k. Inr (Some (?xs ! ((?m + k) mod length ?xs)))) [0..<length ?xs]"
      by (subst rot) (simp add: comp_def)
    have "length ts = length ?xs" using len assms(3) by simp
    with picks have "fst (select_all fl s ts) =
        map (\<lambda>k. Inr (Some (?xs ! ((?m + k) mod length ?xs)))) [0..<length ?xs]"
      by (simp only:)
    also have "\<dots> = map (\<lambda>a. Inr (Some a)) (rotate ?m ?xs)"
      by (rule A [symmetric])
    finally show "fst (select_all fl s ts) = map (\<lambda>a. Inr (Some a)) (rotate ?m ?xs)" .
  qed
  have p5: "distinct ?xs \<longrightarrow>
      (\<forall>a\<in>set ?xs.
         (count_list (fst (select_all fl s ts)) (Inr (Some a)) = length ts div n \<or>
          count_list (fst (select_all fl s ts)) (Inr (Some a)) = length ts div n + 1) \<and>
         (n dvd length ts \<longrightarrow>
            count_list (fst (select_all fl s ts)) (Inr (Some a)) = length ts div n))"
  proof (intro impI ballI)
    fix a
    assume d: "distinct ?xs" and a: "a \<in> set ?xs"
    then obtain j where j: "j < length ?xs" and aj: "a = ?xs ! j"
      by (metis in_set_conv_nth)
    have "count_list (fst (select_all fl s ts)) (Inr (Some a)) = hits n ?m j (length ts)"
      unfolding picks aj using count_picks [OF d j] assms(3) by simp
    then show "(count_list (fst (select_all fl s ts)) (Inr (Some a)) = length ts div n \<or>
          count_list (fst (select_all fl s ts)) (Inr (Some a)) = length ts div n + 1) \<and>
         (n dvd length ts \<longrightarrow>
            count_list (fst (select_all fl s ts)) (Inr (Some a)) = length ts div n)"
      using hits_bounds [of j n ?m "length ts"] j assms(3) by simp
  qed
  show ?thesis by (intro conjI p1 p2 p3 p4 p5)
qed

lemma active_list_demo: "active_list demo_pool = map snd demo_agents"
  by (simp only: active_list_def active_demo)

theorem low_priority_round_robin_witness:
  "fst (select_all exact_floats (demo_pool\<lparr>round_robin_index := 4\<rparr>) [demo_task 1, demo_task 2, demo_task 0]) =
     map (\<lambda>a. Inr (Some a)) (rotate 1 (active_list demo_pool)) \<and>
   round_robin_index
     (snd (select_all exact_floats (demo_pool\<lparr>round_robin_index := 4\<rparr>) [demo_task 1, demo_task 2, demo_task 0])) = 7"
proof -
  let ?s = "demo_pool\<lparr>round_robin_index := 4\<rparr>"
  let ?ts = "[demo_task 1, demo_task 2, demo_task 0]"
  have h1: "active_list ?s \<noteq> []"
    by (simp add: active_list_demo demo_agents_def)
  have h2: "\<forall>t\<in>set ?ts. get_priority t < 3"
    by (simp add: get_priority_def demo_task_def)
  have h3: "3 = length (active_list ?s)"
    by (simp add: active_list_demo demo_agents_def)
  have h4: "4 = round_robin_index ?s"
    by simp
  note all = low_priority_round_robin [OF h1 h2 h3 h4]
  have cursor: "round_robin_index (snd (select_all exact_floats ?s ?ts)) = 4 + int (length ?ts)"
    by (rule all [THEN conjunct2, THEN conjunct1])
  have "length ?ts = 3 \<longrightarrow>
          fst (select_all exact_floats ?s ?ts) = map (\<lambda>a. Inr (Some a)) (rotate (nat (4 mod int 3)) (active_list ?s))"
    by (rule all [THEN conjunct2, THEN conjunct2, THEN conjunct2, THEN conjunct1])
  then have "fst (select_all exact_floats ?s ?ts) = map (\<lambda>a. Inr (Some a)) (rotate 1 (active_list demo_pool))"
    by simp
  with cursor show ?thesis by simp
qed

section \<open>Properties of the running pool\<close>

subsection \<open>The two maps keep the same keys\<close>

lemma update_metrics_fields [simp]:
  "agents (update_metrics s) = agents s"
  "agent_workloads (update_metrics s) = agent_workloads s"
  "task_queue (update_metrics s) = task_queue s"
  "is_running (update_metrics s) = is_running s"
  "optimization_cycles (update_metrics s) = optimization_cycles s"
  by (simp_all add: update_metrics_def)

lemma select_agent_for_task_fields [simp]:
  "agents (snd (select_agent_for_task fl s t)) = agents s"
  "agent_workloads (snd (select_agent_for_task fl s t)) = agent_workloads s"
  "task_queue (snd (select_agent_for_task fl s t)) = task_queue s"
  "is_running (snd (select_agent_for_task fl s t)) = is_running s"
  by (simp_all add: select_agent_for_task_def select_round_robin_agent_def split: prod.splits)

lemma keys_delete: "fst ` set (AList.delete k al) = fst ` set al - {k}"
  by (auto simp: AList.delete_eq)

lemma keys_update_present:
  "map_of al k = Some v \<Longrightarrow> fst ` set (AList.update k v' al) = fst ` set al"
  by (auto simp: AList.dom_update dest: map_of_SomeD intro: rev_image_eqI)

lemma same_keys_update_metrics [simp]: "same_keys (update_metrics s) = same_keys s"
  by (simp add: same_keys_def)

lemma same_keys_create:
  "same_keys s \<Longrightarrow> same_keys (snd (create_agent fl cfg s uid nm ty fault))"
  by (simp add: create_agent_def same_keys_def AList.dom_update)

lemma same_keys_remove:
  assumes "same_keys s"
  shows "same_keys (snd (remove_agent s aid fault))"
proof (cases "map_of (agents s) aid")
  case None
  then show ?thesis using assms by (simp add: remove_agent_def)
next
  case (Some a)
  then have "aid \<in> fst ` set (agents s)"
    by (metis domI dom_map_of_conv_image_fst)
  then have "aid \<in> fst ` set (agent_workloads s)" using assms by (simp add: same_keys_def)
  then obtain w where "map_of (agent_workloads s) aid = Some w"
    by (metis domD dom_map_of_conv_image_fst)
  then show ?thesis
    using Some assms
    by (simp add: remove_agent_def same_keys_def keys_delete AList.dom_map_entry Let_def)
qed


lemma same_keys_loop:
  "same_keys s \<Longrightarrow> same_keys (snd (remove_underperforming_loop fl faults snapshot s))"
proof (induction snapshot arbitrary: s)
  case Nil
  then show ?case by simp
next
  case (Cons a rest)
  have r: "same_keys (snd (remove_agent s (agent_id a) (faults (agent_id a))))"
    using Cons.prems by (rule same_keys_remove)
  show ?case
  proof (cases "remove_agent s (agent_id a) (faults (agent_id a))")
    case (Pair res s')
    with r have s': "same_keys s'" by simp
    show ?thesis
      using Pair s' Cons.IH [OF s'] Cons.IH [OF Cons.prems]
      by (cases res) simp_all
  qed
qed

lemma same_keys_optimize_caps [simp]:
  "same_keys (optimize_agent_capabilities fl s) = same_keys s"
proof -
  have "fst ` set (agents (optimize_agent_capabilities fl s)) = fst ` set (agents s)"
    by (force simp: optimize_agent_capabilities_def)
  then show ?thesis by (simp add: same_keys_def optimize_agent_capabilities_def)
qed

lemma same_keys_scale_up:
  "same_keys s \<Longrightarrow> same_keys (snd (scale_up fl cfg uid fault s))"
  using same_keys_create [of s fl cfg uid "auto_agent_name (optimization_cycles s)" "''HyperAgent''" fault]
  by (auto simp: scale_up_def split: prod.splits sum.splits)

lemma same_keys_scale_down:
  assumes "same_keys s"
  shows "same_keys (snd (scale_down_and_optimize fl faults s))"
proof -
  have "same_keys (snd (remove_underperforming_agents fl faults s))"
    using assms by (simp add: remove_underperforming_agents_def same_keys_loop)
  then show ?thesis
    using assms by (auto simp: scale_down_and_optimize_def split: prod.splits sum.splits)
qed

lemma same_keys_cycle_counter [simp]:
  "same_keys (s\<lparr>optimization_cycles := c\<rparr>) = same_keys s"
  by (simp add: same_keys_def)

lemma optimize_cycle_alt:
  "optimize_cycle fl cfg uid fault faults s =
     (fst (scale_up fl cfg uid fault (s\<lparr>optimization_cycles := optimization_cycles s + 1\<rparr>)),
      scale_down_and_optimize fl faults
        (snd (scale_up fl cfg uid fault (s\<lparr>optimization_cycles := optimization_cycles s + 1\<rparr>))))"
  by (simp add: optimize_cycle_def split: prod.splits)

lemma same_keys_optimize_cycle:
  "same_keys s \<Longrightarrow> same_keys (snd (snd (optimize_cycle fl cfg uid fault faults s)))"
  using same_keys_scale_down [OF same_keys_scale_up, of "s\<lparr>optimization_cycles := optimization_cycles s + 1\<rparr>" fl faults fl cfg uid fault]
  by (simp add: optimize_cycle_alt)

lemma same_keys_submit [simp]: "same_keys (submit_task s t) = same_keys s"
  by (simp add: submit_task_def same_keys_def Let_def)

lemma worker_take_cases:
  obtains (idle) "fst (worker_take fl s) = Idle"
      "agent_workloads (snd (worker_take fl s)) = agent_workloads s"
      "agents (snd (worker_take fl s)) = agents s"
      "is_running (snd (worker_take fl s)) = is_running s"
  | (dispatch) t aid w where "fst (worker_take fl s) = Awaiting t aid"
      "map_of (agent_workloads s) aid = Some w"
      "agent_workloads (snd (worker_take fl s)) = AList.update aid (w + 1) (agent_workloads s)"
      "agents (snd (worker_take fl s)) = agents s"
      "is_running (snd (worker_take fl s)) = is_running s"
proof (cases "task_queue s")
  case Nil
  then show ?thesis using idle by (simp add: worker_take_def)
next
  case (Cons t q)
  let ?s1 = "s\<lparr>task_queue := q\<rparr>"
  obtain r s' where sel: "select_agent_for_task fl ?s1 t = (r, s')" by (cases "select_agent_for_task fl ?s1 t")
  have f: "agents s' = agents s" "agent_workloads s' = agent_workloads s" "is_running s' = is_running s"
    using select_agent_for_task_fields [of fl ?s1 t] sel by simp_all
  show ?thesis
  proof (cases r)
    case (Inl e)
    then show ?thesis using idle Cons sel f by (simp add: worker_take_def)
  next
    case (Inr o1)
    show ?thesis
    proof (cases o1)
      case None
      then show ?thesis using idle Cons sel f Inr by (simp add: worker_take_def)
    next
      case (Some a)
      show ?thesis
      proof (cases "map_of (agent_workloads s) (agent_id a)")
        case None
        then show ?thesis using idle Cons sel f Inr Some by (simp add: worker_take_def)
      next
        case (Some w)
        then show ?thesis
          using dispatch [of t "agent_id a" w] Cons sel f Inr \<open>o1 = Some a\<close>
          by (simp add: worker_take_def)
      qed
    qed
  qed
qed

lemma same_keys_take:
  assumes "same_keys s"
  shows "same_keys (snd (worker_take fl s))"
proof (cases rule: worker_take_cases [of fl s])
  case idle
  then show ?thesis using assms by (simp add: same_keys_def)
next
  case (dispatch t aid w)
  then show ?thesis using assms by (simp add: same_keys_def keys_update_present)
qed

lemma worker_finish_cases:
  obtains (raised) "oc = Raised" "worker_finish fl s t aid oc = s"
  | (missing) "oc \<noteq> Raised" "map_of (agent_workloads s) aid = None"
      "agent_workloads (worker_finish fl s t aid oc) = agent_workloads s"
  | (decrement) w where "oc \<noteq> Raised" "map_of (agent_workloads s) aid = Some w"
      "agent_workloads (worker_finish fl s t aid oc) = AList.update aid (w - 1) (agent_workloads s)"
proof (cases "oc = Raised")
  case True
  then show ?thesis using raised by (simp add: worker_finish_def)
next
  case False
  show ?thesis
  proof (cases "map_of (agent_workloads s) aid")
    case None
    then show ?thesis using missing False by (simp add: worker_finish_def Let_def)
  next
    case (Some w)
    then show ?thesis using decrement [of w] False by (simp add: worker_finish_def Let_def)
  qed
qed

lemma map_fst_map_entry [simp]: "map fst (AList.map_entry k f al) = map fst al"
  by (induction al) auto

lemma worker_finish_fields [simp]:
  "map fst (agents (worker_finish fl s t aid oc)) = map fst (agents s)"
  "is_running (worker_finish fl s t aid oc) = is_running s"
  "agent_rows (worker_finish fl s t aid oc) = agent_rows s"
  "task_queue (worker_finish fl s t aid oc) = task_queue s"
  by (simp_all add: worker_finish_def Let_def split: option.splits)

lemma same_keys_finish:
  assumes "same_keys s"
  shows "same_keys (worker_finish fl s t aid oc)"
proof -
  have k: "fst ` set (agents (worker_finish fl s t aid oc)) = fst ` set (agents s)"
    using worker_finish_fields(1) [of fl s t aid oc] by (metis set_map)
  show ?thesis
  proof (cases rule: worker_finish_cases [of oc fl s t aid])
    case raised
    then show ?thesis using assms by simp
  next
    case missing
    then show ?thesis using assms k by (simp add: same_keys_def)
  next
    case (decrement w)
    then show ?thesis using assms k by (simp add: same_keys_def keys_update_present)
  qed
qed

lemma step_same_keys:
  assumes "step fl cfg sys ev = Some sys'" and "same_keys (pool sys)"
  shows "same_keys (pool sys')"
proof (cases ev)
  case (Submit t)
  then show ?thesis using assms by (auto simp: step_def split: if_splits)
next
  case (Take i)
  then show ?thesis
    using assms same_keys_take [OF assms(2), of fl]
    by (auto simp: step_def split: if_splits prod.splits)
next
  case (Finish i oc)
  then show ?thesis
    using assms same_keys_finish [OF assms(2), of fl]
    by (auto simp: step_def split: if_splits worker.splits)
next
  case (Create uid nm ty fault)
  then show ?thesis
    using assms same_keys_create [OF assms(2), of fl cfg uid nm ty fault]
    by (auto simp: step_def split: if_splits)
next
  case (Remove aid fault)
  then show ?thesis
    using assms same_keys_remove [OF assms(2), of aid fault]
    by (auto simp: step_def split: if_splits)
next
  case (Optimize uid fault faults)
  then show ?thesis
    using assms same_keys_optimize_cycle [OF assms(2), of fl cfg uid fault faults]
    by (auto simp: step_def split: if_splits)
next
  case Monitor
  then show ?thesis using assms by (auto simp: step_def split: if_splits)
qed

lemma run_same_keys:
  "run fl cfg sys evs = Some sys' \<Longrightarrow> same_keys (pool sys) \<Longrightarrow> same_keys (pool sys')"
proof (induction evs arbitrary: sys)
  case Nil
  then show ?case by simp
next
  case (Cons ev evs)
  then obtain sys1 where s1: "step fl cfg sys ev = Some sys1" and r: "run fl cfg sys1 evs = Some sys'"
    by (auto split: option.splits)
  show ?case using Cons.IH [OF r step_same_keys [OF s1 Cons.prems(2)]] .
qed

lemma same_keys_initialize: "same_keys (pool (initialize n rows))"
  by (simp add: initialize_def init_pool_def same_keys_def)

lemma new_agent_sel [simp]:
  "agent_id (new_agent fl u n t) = u"
  "agent_name (new_agent fl u n t) = n"
  "status (new_agent fl u n t) = Active"
  "success_rate (new_agent fl u n t) = f_lit fl 1"
  "tasks_completed (new_agent fl u n t) = 0"
  by (simp_all add: new_agent_def)

subsection \<open>The size of the pool\<close>

lemma length_update_le: "length (AList.update k v al) \<le> Suc (length al)"
  by (induction al) auto

lemma length_delete_le: "length (AList.delete k al) \<le> length al"
  by (simp add: AList.delete_eq)

lemma delete_absent: "k \<notin> fst ` set al \<Longrightarrow> AList.delete k al = al"
  by (induction al) auto

lemma length_delete_distinct:
  "distinct (map fst al) \<Longrightarrow> length al \<le> Suc (length (AList.delete k al))"
  by (induction al) (auto simp: delete_absent)

lemma length_map_entry [simp]: "length (AList.map_entry k f al) = length al"
  by (induction al) auto

lemma create_agent_agents:
  "agents (snd (create_agent fl cfg s uid nm ty fault)) = agents s \<or>
   (int (length (agents s)) < max_agents cfg \<and>
    agents (snd (create_agent fl cfg s uid nm ty fault)) = AList.update uid (new_agent fl uid nm ty) (agents s))"
  by (simp add: create_agent_def)

lemma remove_agent_agents:
  "map fst (agents (snd (remove_agent s aid fault))) = map fst (agents s) \<or>
   agents (snd (remove_agent s aid fault)) = AList.delete aid (agents s)"
  by (simp add: remove_agent_def Let_def split: option.splits)

lemma remove_agent_length:
  "length (agents (snd (remove_agent s aid fault))) = length (agents s) \<or>
   agents (snd (remove_agent s aid fault)) = AList.delete aid (agents s)"
  using remove_agent_agents [of s aid fault] by (metis length_map)

lemma distinct_keys_create:
  "distinct_keys s \<Longrightarrow> distinct_keys (snd (create_agent fl cfg s uid nm ty fault))"
  using create_agent_agents [of fl cfg s uid nm ty fault]
  by (auto simp: distinct_keys_def AList.distinct_update)

lemma distinct_keys_remove:
  "distinct_keys s \<Longrightarrow> distinct_keys (snd (remove_agent s aid fault))"
  using remove_agent_agents [of s aid fault]
  by (auto simp: distinct_keys_def AList.distinct_delete)

lemma within_limit_create:
  "within_limit cfg s \<Longrightarrow> within_limit cfg (snd (create_agent fl cfg s uid nm ty fault))"
  using create_agent_agents [of fl cfg s uid nm ty fault] length_update_le [of uid "new_agent fl uid nm ty" "agents s"]
  by (auto simp: within_limit_def)

lemma within_limit_remove:
  "within_limit cfg s \<Longrightarrow> within_limit cfg (snd (remove_agent s aid fault))"
  using remove_agent_length [of s aid fault] length_delete_le [of aid "agents s"]
  by (auto simp: within_limit_def)

lemma remove_agent_floor:
  "distinct_keys s \<Longrightarrow> length (agents s) \<le> Suc (length (agents (snd (remove_agent s aid fault))))"
  using remove_agent_length [of s aid fault] length_delete_distinct [of "agents s" aid]
  by (auto simp: distinct_keys_def)

text \<open>The loop of the underperformer removal.\<close>

lemma loop_invariants:
  assumes "distinct_keys s" and "within_limit cfg s"
  shows "distinct_keys (snd (remove_underperforming_loop fl faults snapshot s)) \<and>
         within_limit cfg (snd (remove_underperforming_loop fl faults snapshot s)) \<and>
         (3 \<le> length (agents s) \<longrightarrow> 3 \<le> length (agents (snd (remove_underperforming_loop fl faults snapshot s))))"
  using assms
proof (induction snapshot arbitrary: s)
  case Nil
  then show ?case by simp
next
  case (Cons a rest)
  show ?case
  proof (cases "success_rate a < f_lit fl (3 / 10) \<and> tasks_completed a > 10 \<and> length (agents s) > 3")
    case False
    then show ?thesis using Cons.IH [OF Cons.prems] by auto
  next
    case True
    obtain res s' where rm: "remove_agent s (agent_id a) (faults (agent_id a)) = (res, s')"
      by (cases "remove_agent s (agent_id a) (faults (agent_id a))")
    have d: "distinct_keys s'"
      using distinct_keys_remove [OF Cons.prems(1), of "agent_id a" "faults (agent_id a)"] rm by simp
    have l: "within_limit cfg s'"
      using within_limit_remove [OF Cons.prems(2), of "agent_id a" "faults (agent_id a)"] rm by simp
    have f: "3 \<le> length (agents s')"
      using remove_agent_floor [OF Cons.prems(1), of "agent_id a" "faults (agent_id a)"] rm True by simp
    show ?thesis
    proof (cases res)
      case (Inl e)
      then show ?thesis using True rm d l f by simp
    next
      case (Inr b)
      then show ?thesis using True rm Cons.IH [OF d l] f by simp
    qed
  qed
qed

lemma optimize_caps_agents [simp]:
  "length (agents (optimize_agent_capabilities fl s)) = length (agents s)"
  "map fst (agents (optimize_agent_capabilities fl s)) = map fst (agents s)"
  by (simp_all add: optimize_agent_capabilities_def case_prod_unfold comp_def)

lemma scale_down_invariants:
  assumes "distinct_keys s" and "within_limit cfg s"
  shows "distinct_keys (snd (scale_down_and_optimize fl faults s)) \<and>
         within_limit cfg (snd (scale_down_and_optimize fl faults s)) \<and>
         (3 \<le> length (agents s) \<longrightarrow> 3 \<le> length (agents (snd (scale_down_and_optimize fl faults s))))"
proof -
  note L = loop_invariants [OF assms, of fl faults "map snd (agents s)"]
  show ?thesis
    using L assms
    by (auto simp: scale_down_and_optimize_def remove_underperforming_agents_def
        distinct_keys_def within_limit_def split: prod.splits sum.splits)
qed

lemma scale_up_agents:
  "agents (snd (scale_up fl cfg uid fault s)) = agents s \<or>
   (int (length (agents s)) < max_agents cfg \<and>
    agents (snd (scale_up fl cfg uid fault s)) =
      AList.update uid (new_agent fl uid (auto_agent_name (optimization_cycles s)) ''HyperAgent'') (agents s))"
  using create_agent_agents [of fl cfg s uid "auto_agent_name (optimization_cycles s)" "''HyperAgent''" fault]
  by (auto simp: scale_up_def split: prod.splits sum.splits)

lemma length_update_ge: "length al \<le> length (AList.update k v al)"
  by (induction al) auto

lemma scale_up_invariants:
  assumes "distinct_keys s" and "within_limit cfg s"
  shows "distinct_keys (snd (scale_up fl cfg uid fault s)) \<and>
         within_limit cfg (snd (scale_up fl cfg uid fault s)) \<and>
         length (agents s) \<le> length (agents (snd (scale_up fl cfg uid fault s)))"
  using scale_up_agents [of fl cfg uid fault s] assms
    length_update_le [of uid "new_agent fl uid (auto_agent_name (optimization_cycles s)) ''HyperAgent''" "agents s"]
    length_update_ge [of "agents s" uid "new_agent fl uid (auto_agent_name (optimization_cycles s)) ''HyperAgent''"]
  by (auto simp: distinct_keys_def within_limit_def AList.distinct_update)

lemma optimize_cycle_invariants:
  assumes "distinct_keys s" and "within_limit cfg s"
  shows "distinct_keys (snd (snd (optimize_cycle fl cfg uid fault faults s))) \<and>
         within_limit cfg (snd (snd (optimize_cycle fl cfg uid fault faults s))) \<and>
         (3 \<le> length (agents s) \<longrightarrow> 3 \<le> length (agents (snd (snd (optimize_cycle fl cfg uid fault faults s)))))"
proof -
  let ?s1 = "s\<lparr>optimization_cycles := optimization_cycles s + 1\<rparr>"
  have a: "distinct_keys ?s1" "within_limit cfg ?s1"
    using assms by (simp_all add: distinct_keys_def within_limit_def)
  note U = scale_up_invariants [OF a, of fl uid fault]
  note D = scale_down_invariants [OF U [THEN conjunct1] U [THEN conjunct2, THEN conjunct1], of fl faults]
  have "length (agents s) \<le> length (agents (snd (scale_up fl cfg uid fault ?s1)))"
    using U by simp
  then show ?thesis using D by (auto simp: optimize_cycle_alt)
qed

lemma worker_take_agents [simp]: "agents (snd (worker_take fl s)) = agents s"
  by (cases rule: worker_take_cases [of fl s]) simp_all

lemma remove_agent_running [simp]: "is_running (snd (remove_agent s aid fault)) = is_running s"
  by (simp add: remove_agent_def Let_def split: option.splits)

lemma create_agent_running [simp]: "is_running (snd (create_agent fl cfg s uid nm ty fault)) = is_running s"
  by (simp add: create_agent_def)

lemma loop_Cons_alt:
  "remove_underperforming_loop fl faults (a # rest) s =
     (if success_rate a < f_lit fl (3 / 10) \<and> tasks_completed a > 10 \<and> length (agents s) > 3
      then (case fst (remove_agent s (agent_id a) (faults (agent_id a))) of
              Inl e \<Rightarrow> (Inl e, snd (remove_agent s (agent_id a) (faults (agent_id a))))
            | Inr b \<Rightarrow> remove_underperforming_loop fl faults rest (snd (remove_agent s (agent_id a) (faults (agent_id a)))))
      else remove_underperforming_loop fl faults rest s)"
  by (simp split: prod.splits sum.splits)

lemma scale_up_alt:
  "snd (scale_up fl cfg uid fault s) =
     (if tasks_in_queue s > int (length (agents s)) * 5 \<and> int (length (agents s)) < max_agents cfg
      then snd (create_agent fl cfg s uid (auto_agent_name (optimization_cycles s)) ''HyperAgent'' fault)
      else s)"
  by (simp add: scale_up_def split: prod.splits sum.splits)

lemma scale_down_alt:
  "snd (scale_down_and_optimize fl faults s) =
     (if length (agents s) > 3
      then (case fst (remove_underperforming_agents fl faults s) of
              Inl e \<Rightarrow> snd (remove_underperforming_agents fl faults s)
            | Inr b \<Rightarrow> optimize_agent_capabilities fl (snd (remove_underperforming_agents fl faults s)))
      else optimize_agent_capabilities fl s)"
  by (simp add: scale_down_and_optimize_def split: prod.splits sum.splits)

lemma loop_running [simp]:
  "is_running (snd (remove_underperforming_loop fl faults snapshot s)) = is_running s"
proof (induction snapshot arbitrary: s)
  case Nil
  show ?case by simp
next
  case (Cons a rest)
  show ?case
    unfolding loop_Cons_alt by (simp add: Cons.IH split: sum.splits)
qed

lemma optimize_caps_running [simp]:
  "is_running (optimize_agent_capabilities fl s) = is_running s"
  by (simp add: optimize_agent_capabilities_def)

lemma optimize_cycle_running [simp]:
  "is_running (snd (snd (optimize_cycle fl cfg uid fault faults s))) = is_running s"
  by (simp add: optimize_cycle_alt scale_down_alt scale_up_alt remove_underperforming_agents_def
      split: sum.splits)

lemma step_alt:
  "step fl cfg sys ev =
     (if \<not> is_running (pool sys) then None
      else case ev of
        Submit t \<Rightarrow> Some (sys\<lparr>pool := submit_task (pool sys) t\<rparr>)
      | Take i \<Rightarrow>
          (if i < length (workers sys) \<and> workers sys ! i = Idle
           then Some (sys\<lparr>pool := snd (worker_take fl (pool sys)),
                         workers := (workers sys)[i := fst (worker_take fl (pool sys))]\<rparr>)
           else None)
      | Finish i oc \<Rightarrow>
          (if i < length (workers sys)
           then (case workers sys ! i of
                   Idle \<Rightarrow> None
                 | Awaiting t aid \<Rightarrow>
                     if task_row_rejected t \<and> oc \<noteq> Raised then None
                     else Some (sys\<lparr>pool := worker_finish fl (pool sys) t aid oc,
                                    workers := (workers sys)[i := Idle]\<rparr>))
           else None)
      | Create uid nm ty fault \<Rightarrow>
          (if uid \<in> used_ids sys then None
           else Some (sys\<lparr>pool := snd (create_agent fl cfg (pool sys) uid nm ty fault)\<rparr>))
      | Remove aid fault \<Rightarrow> Some (sys\<lparr>pool := snd (remove_agent (pool sys) aid fault)\<rparr>)
      | Optimize uid fault faults \<Rightarrow>
          (if uid \<in> used_ids sys then None
           else Some (sys\<lparr>pool := snd (snd (optimize_cycle fl cfg uid fault faults (pool sys)))\<rparr>))
      | Monitor \<Rightarrow> Some (sys\<lparr>pool := update_metrics (pool sys)\<rparr>))"
  by (simp add: step_def split: prod.splits event.splits)

lemma worker_take_running [simp]: "is_running (snd (worker_take fl s)) = is_running s"
  by (cases rule: worker_take_cases [of fl s]) simp_all

lemma submit_task_fields [simp]:
  "agents (submit_task s t) = agents s"
  "agent_workloads (submit_task s t) = agent_workloads s"
  "is_running (submit_task s t) = is_running s"
  by (simp_all add: submit_task_def Let_def)

lemma worker_finish_length [simp]:
  "length (agents (worker_finish fl s t aid oc)) = length (agents s)"
  using worker_finish_fields(1) [of fl s t aid oc] by (metis length_map)

lemma step_running:
  "step fl cfg sys ev = Some sys' \<Longrightarrow> is_running (pool sys) \<and> is_running (pool sys')"
  by (cases ev) (auto simp: step_alt split: if_splits worker.splits)

lemma step_size_invariants:
  assumes "step fl cfg sys ev = Some sys'"
    and "distinct_keys (pool sys)" and "within_limit cfg (pool sys)"
  shows "distinct_keys (pool sys') \<and> within_limit cfg (pool sys')"
proof (cases ev)
  case (Submit t)
  then show ?thesis
    using assms by (auto simp: step_alt submit_task_def Let_def distinct_keys_def within_limit_def split: if_splits)
next
  case (Take i)
  then show ?thesis
    using assms by (auto simp: step_alt distinct_keys_def within_limit_def split: if_splits)
next
  case (Finish i oc)
  then show ?thesis
    using assms
    by (auto simp: step_alt distinct_keys_def within_limit_def split: if_splits worker.splits)
next
  case (Create uid nm ty fault)
  then show ?thesis
    using assms distinct_keys_create [OF assms(2), of fl cfg uid nm ty fault]
      within_limit_create [OF assms(3), of fl uid nm ty fault]
    by (auto simp: step_alt split: if_splits)
next
  case (Remove aid fault)
  then show ?thesis
    using assms distinct_keys_remove [OF assms(2), of aid fault]
      within_limit_remove [OF assms(3), of aid fault]
    by (auto simp: step_alt split: if_splits)
next
  case (Optimize uid fault faults)
  then show ?thesis
    using assms optimize_cycle_invariants [OF assms(2,3), of fl uid fault faults]
    by (auto simp: step_alt split: if_splits)
next
  case Monitor
  then show ?thesis
    using assms by (auto simp: step_alt distinct_keys_def within_limit_def split: if_splits)
qed

lemma run_size_invariants:
  "run fl cfg sys evs = Some sys' \<Longrightarrow> distinct_keys (pool sys) \<Longrightarrow> within_limit cfg (pool sys) \<Longrightarrow>
     distinct_keys (pool sys') \<and> within_limit cfg (pool sys')"
proof (induction evs arbitrary: sys)
  case Nil
  then show ?case by simp
next
  case (Cons ev evs)
  then obtain sys1 where s1: "step fl cfg sys ev = Some sys1" and r: "run fl cfg sys1 evs = Some sys'"
    by (auto split: option.splits)
  note I = step_size_invariants [OF s1 Cons.prems(2,3)]
  show ?case using Cons.IH [OF r I [THEN conjunct1] I [THEN conjunct2]] .
qed

lemma run_running:
  "run fl cfg sys evs = Some sys' \<Longrightarrow> is_running (pool sys) \<Longrightarrow> is_running (pool sys')"
proof (induction evs arbitrary: sys)
  case Nil
  then show ?case by simp
next
  case (Cons ev evs)
  then obtain sys1 where s1: "step fl cfg sys ev = Some sys1" and r: "run fl cfg sys1 evs = Some sys'"
    by (auto split: option.splits)
  show ?case using Cons.IH [OF r] step_running [OF s1] by simp
qed

subsection \<open>Workloads and tasks in flight\<close>

lemma length_filter_update:
  "i < length xs \<Longrightarrow>
     length (filter P (xs[i := x])) + (if P (xs ! i) then 1 else 0) =
     length (filter P xs) + (if P x then 1 else 0)"
proof (induction xs arbitrary: i)
  case Nil
  then show ?case by simp
next
  case (Cons y ys)
  then show ?case by (cases i) auto
qed

lemma in_flight_pool [simp]: "in_flight (sys\<lparr>pool := p\<rparr>) aid = in_flight sys aid"
  by (simp add: in_flight_def)

lemma in_flight_dispatch:
  assumes "i < length (workers sys)" and "workers sys ! i = Idle"
  shows "in_flight (sys\<lparr>pool := p, workers := (workers sys)[i := Awaiting t a]\<rparr>) aid =
           in_flight sys aid + (if a = aid then 1 else 0)"
  using length_filter_update [OF assms(1), of "\<lambda>w. held w = [aid]" "Awaiting t a"] assms(2)
  by (simp add: in_flight_def)

lemma in_flight_idle:
  assumes "i < length (workers sys)" and "workers sys ! i = Idle"
  shows "in_flight (sys\<lparr>pool := p, workers := (workers sys)[i := Idle]\<rparr>) aid = in_flight sys aid"
  using length_filter_update [OF assms(1), of "\<lambda>w. held w = [aid]" Idle] assms(2)
  by (simp add: in_flight_def)

lemma in_flight_return:
  assumes "i < length (workers sys)" and "workers sys ! i = Awaiting t a"
  shows "in_flight (sys\<lparr>pool := p, workers := (workers sys)[i := Idle]\<rparr>) aid
           + (if a = aid then 1 else 0) = in_flight sys aid"
  using length_filter_update [OF assms(1), of "\<lambda>w. held w = [aid]" Idle] assms(2)
  by (simp add: in_flight_def)

lemma in_flight_fresh:
  assumes "uid \<notin> used_ids sys"
  shows "in_flight sys uid = 0"
proof -
  have "\<And>w. w \<in> set (workers sys) \<Longrightarrow> held w \<noteq> [uid]"
  proof
    fix w
    assume "w \<in> set (workers sys)" and "held w = [uid]"
    then have "uid \<in> set (concat (map held (workers sys)))" by force
    then show False using assms by (simp add: used_ids_def)
  qed
  then show ?thesis by (simp add: in_flight_def filter_empty_conv)
qed

lemma create_agent_workloads:
  "agent_workloads (snd (create_agent fl cfg s uid nm ty fault)) = agent_workloads s \<or>
   agent_workloads (snd (create_agent fl cfg s uid nm ty fault)) = AList.update uid 0 (agent_workloads s)"
  by (simp add: create_agent_def)

lemma remove_agent_workloads:
  "agent_workloads (snd (remove_agent s aid fault)) = agent_workloads s \<or>
   agent_workloads (snd (remove_agent s aid fault)) = AList.delete aid (agent_workloads s)"
  by (simp add: remove_agent_def Let_def split: option.splits)

lemma map_of_delete_Some:
  "map_of (AList.delete k al) x = Some v \<Longrightarrow> map_of al x = Some v"
  by (simp add: AList.delete_conv' split: if_splits)

lemma remove_agent_entry:
  "map_of (agent_workloads (snd (remove_agent s aid fault))) x = Some w \<Longrightarrow>
     map_of (agent_workloads s) x = Some w"
  using remove_agent_workloads [of s aid fault] by (auto dest: map_of_delete_Some)

lemma create_agent_entry:
  "map_of (agent_workloads (snd (create_agent fl cfg s uid nm ty fault))) x = Some w \<Longrightarrow>
     map_of (agent_workloads s) x = Some w \<or> (x = uid \<and> w = 0)"
  using create_agent_workloads [of fl cfg s uid nm ty fault]
  by (auto simp: AList.update_conv' split: if_splits)

lemma loop_entry:
  "map_of (agent_workloads (snd (remove_underperforming_loop fl faults snapshot s))) x = Some w \<Longrightarrow>
     map_of (agent_workloads s) x = Some w"
proof (induction snapshot arbitrary: s)
  case Nil
  then show ?case by simp
next
  case (Cons a rest)
  let ?r = "remove_agent s (agent_id a) (faults (agent_id a))"
  show ?case
  proof (cases "success_rate a < f_lit fl (3 / 10) \<and> tasks_completed a > 10 \<and> length (agents s) > 3")
    case False
    have "remove_underperforming_loop fl faults (a # rest) s = remove_underperforming_loop fl faults rest s"
      by (simp only: loop_Cons_alt False if_False)
    then show ?thesis using Cons by simp
  next
    case True
    have eq: "remove_underperforming_loop fl faults (a # rest) s =
        (case fst ?r of Inl e \<Rightarrow> (Inl e, snd ?r)
         | Inr b \<Rightarrow> remove_underperforming_loop fl faults rest (snd ?r))"
      by (simp only: loop_Cons_alt True if_True simp_thms)
    show ?thesis
    proof (cases "fst ?r")
      case (Inl e)
      then have "map_of (agent_workloads (snd ?r)) x = Some w"
        using Cons.prems eq by simp
      then show ?thesis by (rule remove_agent_entry)
    next
      case (Inr b)
      then have "map_of (agent_workloads (snd (remove_underperforming_loop fl faults rest (snd ?r)))) x = Some w"
        using Cons.prems eq by simp
      then have "map_of (agent_workloads (snd ?r)) x = Some w" by (rule Cons.IH)
      then show ?thesis by (rule remove_agent_entry)
    qed
  qed
qed

lemma optimize_caps_workloads [simp]:
  "agent_workloads (optimize_agent_capabilities fl s) = agent_workloads s"
  by (simp add: optimize_agent_capabilities_def)

lemma scale_down_entry:
  "map_of (agent_workloads (snd (scale_down_and_optimize fl faults s))) x = Some w \<Longrightarrow>
     map_of (agent_workloads s) x = Some w"
  using loop_entry [of fl faults "map snd (agents s)" s x w]
  by (auto simp: scale_down_alt remove_underperforming_agents_def split: if_splits sum.splits)

lemma scale_up_entry:
  "map_of (agent_workloads (snd (scale_up fl cfg uid fault s))) x = Some w \<Longrightarrow>
     map_of (agent_workloads s) x = Some w \<or> (x = uid \<and> w = 0)"
  using create_agent_entry [of fl cfg s uid "auto_agent_name (optimization_cycles s)" "''HyperAgent''" fault x w]
  by (auto simp: scale_up_alt split: if_splits)

lemma optimize_cycle_entry:
  assumes "map_of (agent_workloads (snd (snd (optimize_cycle fl cfg uid fault faults s)))) x = Some w"
  shows "map_of (agent_workloads s) x = Some w \<or> (x = uid \<and> w = 0)"
proof -
  let ?s1 = "s\<lparr>optimization_cycles := optimization_cycles s + 1\<rparr>"
  have "map_of (agent_workloads (snd (scale_down_and_optimize fl faults (snd (scale_up fl cfg uid fault ?s1))))) x = Some w"
    using assms by (simp add: optimize_cycle_alt)
  then have "map_of (agent_workloads (snd (scale_up fl cfg uid fault ?s1))) x = Some w"
    by (rule scale_down_entry)
  from scale_up_entry [OF this] show ?thesis by simp
qed

text \<open>
  As long as no call of \<open>process_task\<close> raises, every workload entry is the number of
  workers awaiting that executor.
\<close>

lemma step_workloads_match:
  assumes "step fl cfg sys ev = Some sys'" and "workloads_match sys"
    and "\<forall>i. ev \<noteq> Finish i Raised"
  shows "workloads_match sys'"
proof (cases ev)
  case (Submit t)
  then show ?thesis
    using assms by (auto simp: step_alt workloads_match_def split: if_splits)
next
  case (Take i)
  with assms(1) have i: "i < length (workers sys)" and idle: "workers sys ! i = Idle"
    and sys': "sys' = sys\<lparr>pool := snd (worker_take fl (pool sys)),
                           workers := (workers sys)[i := fst (worker_take fl (pool sys))]\<rparr>"
    by (auto simp: step_alt split: if_splits)
  show ?thesis
  proof (cases rule: worker_take_cases [of fl "pool sys"])
    case idle': idle
    then show ?thesis
      using assms(2) sys' in_flight_idle [OF i idle]
      by (simp add: workloads_match_def)
  next
    case (dispatch t a v)
    have "\<And>aid. in_flight sys' aid = in_flight sys aid + (if a = aid then 1 else 0)"
      using sys' dispatch(1) in_flight_dispatch [OF i idle] by simp
    moreover have "agent_workloads (pool sys') = AList.update a (v + 1) (agent_workloads (pool sys))"
      using sys' dispatch(3) by simp
    moreover have "v = int (in_flight sys a)"
      using assms(2) dispatch(2) by (simp add: workloads_match_def)
    ultimately show ?thesis
      using assms(2) by (auto simp: workloads_match_def AList.update_conv' split: if_splits)
  qed
next
  case (Finish i oc)
  with assms(1) obtain t a where i: "i < length (workers sys)"
    and busy: "workers sys ! i = Awaiting t a"
    and sys': "sys' = sys\<lparr>pool := worker_finish fl (pool sys) t a oc,
                           workers := (workers sys)[i := Idle]\<rparr>"
    by (auto simp: step_alt split: if_splits worker.splits)
  have cnt: "\<And>aid. in_flight sys' aid + (if a = aid then 1 else 0) = in_flight sys aid"
    using sys' in_flight_return [OF i busy] by simp
  show ?thesis
  proof (cases rule: worker_finish_cases [of oc fl "pool sys" t a])
    case raised
    then show ?thesis using assms(3) Finish by simp
  next
    case missing
    have "\<And>aid w. map_of (agent_workloads (pool sys')) aid = Some w \<Longrightarrow> w = int (in_flight sys' aid)"
    proof -
      fix aid w
      assume e: "map_of (agent_workloads (pool sys')) aid = Some w"
      then have e': "map_of (agent_workloads (pool sys)) aid = Some w"
        using sys' missing(3) by simp
      then have "aid \<noteq> a" using missing(2) by auto
      then have "in_flight sys' aid = in_flight sys aid" using cnt [of aid] by simp
      then show "w = int (in_flight sys' aid)"
        using e' assms(2) by (simp add: workloads_match_def)
    qed
    then show ?thesis by (simp add: workloads_match_def)
  next
    case (decrement v)
    have wl: "agent_workloads (pool sys') = AList.update a (v - 1) (agent_workloads (pool sys))"
      using sys' decrement(3) by simp
    have v: "v = int (in_flight sys a)"
      using assms(2) decrement(2) by (simp add: workloads_match_def)
    have "\<And>aid w. map_of (agent_workloads (pool sys')) aid = Some w \<Longrightarrow> w = int (in_flight sys' aid)"
    proof -
      fix aid w
      assume e: "map_of (agent_workloads (pool sys')) aid = Some w"
      show "w = int (in_flight sys' aid)"
      proof (cases "aid = a")
        case True
        then have "w = v - 1" using e wl by (simp add: AList.update_conv')
        then show ?thesis using v cnt [of a] True by simp
      next
        case False
        then have "map_of (agent_workloads (pool sys)) aid = Some w"
          using e wl by (simp add: AList.update_conv')
        then show ?thesis
          using assms(2) cnt [of aid] False by (simp add: workloads_match_def)
      qed
    qed
    then show ?thesis by (simp add: workloads_match_def)
  qed
next
  case (Create uid nm ty fault)
  with assms(1) have fresh: "uid \<notin> used_ids sys"
    and sys': "sys' = sys\<lparr>pool := snd (create_agent fl cfg (pool sys) uid nm ty fault)\<rparr>"
    by (auto simp: step_alt split: if_splits)
  have "\<And>aid w. map_of (agent_workloads (pool sys')) aid = Some w \<Longrightarrow> w = int (in_flight sys' aid)"
  proof -
    fix aid w
    assume "map_of (agent_workloads (pool sys')) aid = Some w"
    then have "map_of (agent_workloads (snd (create_agent fl cfg (pool sys) uid nm ty fault))) aid = Some w"
      using sys' by simp
    from create_agent_entry [OF this] show "w = int (in_flight sys' aid)"
    proof
      assume "map_of (agent_workloads (pool sys)) aid = Some w"
      then show ?thesis using assms(2) sys' by (simp add: workloads_match_def)
    next
      assume "aid = uid \<and> w = 0"
      then show ?thesis using in_flight_fresh [OF fresh] sys' by simp
    qed
  qed
  then show ?thesis by (simp add: workloads_match_def)
next
  case (Remove aid' fault)
  with assms(1) have sys': "sys' = sys\<lparr>pool := snd (remove_agent (pool sys) aid' fault)\<rparr>"
    by (auto simp: step_alt split: if_splits)
  have "\<And>aid w. map_of (agent_workloads (pool sys')) aid = Some w \<Longrightarrow> w = int (in_flight sys' aid)"
  proof -
    fix aid w
    assume "map_of (agent_workloads (pool sys')) aid = Some w"
    then have "map_of (agent_workloads (snd (remove_agent (pool sys) aid' fault))) aid = Some w"
      using sys' by simp
    from remove_agent_entry [OF this] show "w = int (in_flight sys' aid)"
      using assms(2) sys' by (simp add: workloads_match_def)
  qed
  then show ?thesis by (simp add: workloads_match_def)
next
  case (Optimize uid fault faults)
  with assms(1) have fresh: "uid \<notin> used_ids sys"
    and sys': "sys' = sys\<lparr>pool := snd (snd (optimize_cycle fl cfg uid fault faults (pool sys)))\<rparr>"
    by (auto simp: step_alt split: if_splits)
  have "\<And>aid w. map_of (agent_workloads (pool sys')) aid = Some w \<Longrightarrow> w = int (in_flight sys' aid)"
  proof -
    fix aid w
    assume "map_of (agent_workloads (pool sys')) aid = Some w"
    then have "map_of (agent_workloads (snd (snd (optimize_cycle fl cfg uid fault faults (pool sys))))) aid = Some w"
      using sys' by simp
    from optimize_cycle_entry [OF this] show "w = int (in_flight sys' aid)"
    proof
      assume "map_of (agent_workloads (pool sys)) aid = Some w"
      then show ?thesis using assms(2) sys' by (simp add: workloads_match_def)
    next
      assume "aid = uid \<and> w = 0"
      then show ?thesis using in_flight_fresh [OF fresh] sys' by simp
    qed
  qed
  then show ?thesis by (simp add: workloads_match_def)
next
  case Monitor
  then show ?thesis
    using assms by (auto simp: step_alt workloads_match_def split: if_splits)
qed

lemma run_workloads_match:
  "run fl cfg sys evs = Some sys' \<Longrightarrow> workloads_match sys \<Longrightarrow>
     \<forall>i. Finish i Raised \<notin> set evs \<Longrightarrow> workloads_match sys'"
proof (induction evs arbitrary: sys)
  case Nil
  then show ?case by simp
next
  case (Cons ev evs)
  then obtain sys1 where s1: "step fl cfg sys ev = Some sys1" and r: "run fl cfg sys1 evs = Some sys'"
    by (auto split: option.splits)
  have now: "\<forall>i. ev \<noteq> Finish i Raised" and later: "\<forall>i. Finish i Raised \<notin> set evs"
    using Cons.prems(3) by auto
  show ?case using Cons.IH [OF r step_workloads_match [OF s1 Cons.prems(2) now] later] .
qed

subsection \<open>The recorded queue length\<close>

lemma queue_recorded_update_metrics [simp]: "queue_recorded (update_metrics s)"
  by (simp add: queue_recorded_def update_metrics_def)




lemma queue_recorded_optimize_caps [simp]:
  "queue_recorded (optimize_agent_capabilities fl s) = queue_recorded s"
  by (simp add: queue_recorded_def optimize_agent_capabilities_def)



lemma queue_recorded_cycle_counter [simp]:
  "queue_recorded (s\<lparr>optimization_cycles := c\<rparr>) = queue_recorded s"
  by (simp add: queue_recorded_def)


lemma queue_recorded_submit [simp]: "queue_recorded (submit_task s t)"
  by (simp add: queue_recorded_def submit_task_def Let_def)







subsection \<open>Reachable states\<close>

lemmas eval_defs = step_def initialize_def init_pool_def used_ids_def create_agent_def
  remove_agent_def default_settings_def update_metrics_def active_list_def AList.delete_eq
  submit_task_def worker_take_def worker_finish_def select_agent_for_task_def
  select_round_robin_agent_def get_priority_def task_row_rejected_def Let_def

lemma run_append:
  "run fl cfg sys (evs @ [ev]) =
     (case run fl cfg sys evs of None \<Rightarrow> None | Some sys' \<Rightarrow> step fl cfg sys' ev)"
  by (induction evs arbitrary: sys) (auto split: option.splits)

lemma initialize_invariants:
  "same_keys (pool (initialize n rows))"
  "distinct_keys (pool (initialize n rows))"
  "queue_recorded (pool (initialize n rows))"
  "workloads_match (initialize n rows)"
  "is_running (pool (initialize n rows))"
  by (simp_all add: initialize_def init_pool_def same_keys_def distinct_keys_def
      queue_recorded_def workloads_match_def)

lemma demo_events_run:
  "map_option running_size (run fl default_settings (initialize 3 []) demo_events) = Some (True, 2)"
  by (simp add: eval_defs demo_events_def running_size_def)

lemma create_agent_result:
  assumes "fst (create_agent fl cfg s uid nm ty fault) = Inr k"
  shows "k = uid \<and>
         map_of (agents (snd (create_agent fl cfg s uid nm ty fault))) k = Some (new_agent fl uid nm ty) \<and>
         map_of (agent_workloads (snd (create_agent fl cfg s uid nm ty fault))) k = Some 0"
  using assms by (auto simp: create_agent_def AList.update_conv' split: if_splits)

text \<open>
  C9. In every state the running pool reaches, by any sequence of creations and removals
  (and of the other events), whatever the database does to them, the agent map and the
  workload map have the same keys; and whenever \<open>create_agent\<close> succeeds, the executor it
  returns is in the agent map and its workload entry is 0.
\<close>

theorem agents_and_workloads_share_keys:
  assumes "run fl cfg (initialize n rows) evs = Some sys"
  shows "fst ` set (agents (pool sys)) = fst ` set (agent_workloads (pool sys)) \<and>
         (\<forall>uid nm ty fault k. fst (create_agent fl cfg (pool sys) uid nm ty fault) = Inr k \<longrightarrow>
            k = uid \<and>
            map_of (agents (snd (create_agent fl cfg (pool sys) uid nm ty fault))) k
              = Some (new_agent fl uid nm ty) \<and>
            map_of (agent_workloads (snd (create_agent fl cfg (pool sys) uid nm ty fault))) k = Some 0)"
proof -
  have "same_keys (pool sys)"
    using run_same_keys [OF assms initialize_invariants(1)] .
  then show ?thesis using create_agent_result by (simp add: same_keys_def)
qed

theorem agents_and_workloads_share_keys_witness:
  "\<exists>sys. run exact_floats default_settings (initialize 3 []) demo_events = Some sys \<and>
         fst ` set (agents (pool sys)) = fst ` set (agent_workloads (pool sys))"
proof -
  obtain sys where r: "run exact_floats default_settings (initialize 3 []) demo_events = Some sys"
    using demo_events_run [of exact_floats]
    by (cases "run exact_floats default_settings (initialize 3 []) demo_events") auto
  from agents_and_workloads_share_keys [OF r]
  have "fst ` set (agents (pool sys)) = fst ` set (agent_workloads (pool sys))"
    by (rule conjunct1)
  with r show ?thesis by (intro exI [of _ sys] conjI)
qed

subsection \<open>A call of \<open>process_task\<close> that raises\<close>

lemma select_best_agent_single: "select_best_agent fl [a] ty = Inr a"
  by (simp add: select_best_agent_def)

lemma demo_work_run:
  "map_option work_view (run fl default_settings (initialize 3 []) demo_work) =
     Some ([(''id-1'', 0)], [Idle, Idle, Idle])"
  by (simp add: eval_defs demo_work_def work_view_def eval_nat_numeral)

lemma demo_dispatch_run:
  "map_option work_view (run fl default_settings (initialize 3 []) demo_dispatch) =
     Some ([(''id-1'', 1)], [Awaiting oversized_task ''id-1'', Idle, Idle])"
  by (simp add: eval_defs demo_dispatch_def work_view_def oversized_task_def eval_nat_numeral
      select_best_agent_single)

lemma demo_dispatch_keys:
  "map_option (\<lambda>sys. map fst (agents (pool sys)))
     (run fl default_settings (initialize 3 []) demo_dispatch) = Some [''id-1'']"
  by (simp add: eval_defs demo_dispatch_def oversized_task_def eval_nat_numeral
      select_best_agent_single)

text \<open>
  C2 fails in the program. Take a state that the running pool reaches while no call of
  \<open>process_task\<close> has raised, in which worker \<open>i\<close> awaits the executor \<open>aid\<close> of the
  pool with the task \<open>t\<close>. There the workload of \<open>aid\<close> is the number of tasks in
  flight to it. When the call of \<open>process_task\<close> raises, the worker is idle again and the
  workload is left one above the number of tasks in flight: the decrement was skipped. A
  task whose row the database rejects can end in no other way.
\<close>

theorem workload_left_behind_when_process_task_raises:
  assumes "run fl cfg (initialize n rows) evs = Some sys"
    and "\<forall>j. Finish j Raised \<notin> set evs"
    and "i < length (workers sys)" and "workers sys ! i = Awaiting t aid"
    and "aid \<in> fst ` set (agents (pool sys))"
  shows "map_of (agent_workloads (pool sys)) aid = Some (int (in_flight sys aid)) \<and>
         (\<exists>sys'. run fl cfg (initialize n rows) (evs @ [Finish i Raised]) = Some sys' \<and>
            workers sys' ! i = Idle \<and>
            map_of (agent_workloads (pool sys')) aid = Some (int (in_flight sys' aid) + 1)) \<and>
         (task_row_rejected t \<longrightarrow>
            step fl cfg sys (Finish i Completed) = None \<and> step fl cfg sys (Finish i Failed) = None)"
proof -
  let ?sys' = "sys\<lparr>pool := worker_finish fl (pool sys) t aid Raised,
                    workers := (workers sys)[i := Idle]\<rparr>"
  have running: "is_running (pool sys)"
    using run_running [OF assms(1) initialize_invariants(5)] .
  have "same_keys (pool sys)"
    using run_same_keys [OF assms(1) initialize_invariants(1)] .
  then have "aid \<in> fst ` set (agent_workloads (pool sys))"
    using assms(5) by (simp add: same_keys_def)
  then obtain w where w: "map_of (agent_workloads (pool sys)) aid = Some w"
    by (metis domD dom_map_of_conv_image_fst)
  have "workloads_match sys"
    using run_workloads_match [OF assms(1) initialize_invariants(4) assms(2)] .
  then have wv: "w = int (in_flight sys aid)" using w by (simp add: workloads_match_def)
  have st: "step fl cfg sys (Finish i Raised) = Some ?sys'"
    using running assms(3,4) by (simp add: step_alt)
  have r: "run fl cfg (initialize n rows) (evs @ [Finish i Raised]) = Some ?sys'"
    using assms(1) st by (simp add: run_append)
  have keep: "agent_workloads (pool ?sys') = agent_workloads (pool sys)"
    by (simp add: worker_finish_def)
  have "in_flight ?sys' aid + 1 = in_flight sys aid"
    using in_flight_return [OF assms(3,4), of "worker_finish fl (pool sys) t aid Raised" aid] by simp
  then have left: "map_of (agent_workloads (pool ?sys')) aid = Some (int (in_flight ?sys' aid) + 1)"
    using w wv keep by simp
  have idle: "workers ?sys' ! i = Idle" using assms(3) by simp
  have p1: "map_of (agent_workloads (pool sys)) aid = Some (int (in_flight sys aid))"
    using w wv by simp
  have p2: "\<exists>sys'. run fl cfg (initialize n rows) (evs @ [Finish i Raised]) = Some sys' \<and>
            workers sys' ! i = Idle \<and>
            map_of (agent_workloads (pool sys')) aid = Some (int (in_flight sys' aid) + 1)"
    by (rule exI [of _ ?sys']) (intro conjI r idle left)
  have p3: "task_row_rejected t \<longrightarrow>
      step fl cfg sys (Finish i Completed) = None \<and> step fl cfg sys (Finish i Failed) = None"
    using running assms(3,4) by (simp add: step_alt)
  show ?thesis by (intro conjI p1 p2 p3)
qed

theorem workload_left_behind_when_process_task_raises_witness:
  "task_row_rejected oversized_task \<and>
   (\<exists>sys'. run exact_floats default_settings (initialize 3 []) (demo_dispatch @ [Finish 0 Raised])
             = Some sys' \<and>
      workers sys' = [Idle, Idle, Idle] \<and> in_flight sys' ''id-1'' = 0 \<and>
      map_of (agent_workloads (pool sys')) ''id-1'' = Some 1)"
proof -
  obtain sys where r: "run exact_floats default_settings (initialize 3 []) demo_dispatch = Some sys"
    and v: "work_view sys = ([(''id-1'', 1)], [Awaiting oversized_task ''id-1'', Idle, Idle])"
    using demo_dispatch_run [of exact_floats]
    by (cases "run exact_floats default_settings (initialize 3 []) demo_dispatch") auto
  have k: "map fst (agents (pool sys)) = [''id-1'']"
    using demo_dispatch_keys [of exact_floats] r by simp
  have ws: "workers sys = [Awaiting oversized_task ''id-1'', Idle, Idle]"
    using v by (simp add: work_view_def)
  have h2: "\<forall>j. Finish j Raised \<notin> set demo_dispatch" by (simp add: demo_dispatch_def)
  have h3: "0 < length (workers sys)" using ws by simp
  have h4: "workers sys ! 0 = Awaiting oversized_task ''id-1''" using ws by simp
  have "''id-1'' \<in> set (map fst (agents (pool sys)))" using k by simp
  then have h5: "''id-1'' \<in> fst ` set (agents (pool sys))" by simp
  have rej: "task_row_rejected oversized_task"
    by (simp add: task_row_rejected_def oversized_task_def get_priority_def)
  from workload_left_behind_when_process_task_raises [OF r h2 h3 h4 h5, THEN conjunct2, THEN conjunct1]
  obtain sys' where r': "run exact_floats default_settings (initialize 3 [])
                           (demo_dispatch @ [Finish 0 Raised]) = Some sys'"
    and left: "map_of (agent_workloads (pool sys')) ''id-1'' = Some (int (in_flight sys' ''id-1'') + 1)"
    by (elim exE conjE)
  have st: "step exact_floats default_settings sys (Finish 0 Raised) = Some sys'"
    using r r' by (simp add: run_append)
  have running: "is_running (pool sys)"
    using run_running [OF r initialize_invariants(5)] .
  have ws': "workers sys' = [Idle, Idle, Idle]"
    using st running ws by (auto simp: step_alt)
  then have fl0: "in_flight sys' ''id-1'' = 0" by (simp add: in_flight_def)
  have one: "map_of (agent_workloads (pool sys')) ''id-1'' = Some 1"
    using left fl0 by simp
  have "\<exists>sys'. run exact_floats default_settings (initialize 3 []) (demo_dispatch @ [Finish 0 Raised])
             = Some sys' \<and>
      workers sys' = [Idle, Idle, Idle] \<and> in_flight sys' ''id-1'' = 0 \<and>
      map_of (agent_workloads (pool sys')) ''id-1'' = Some 1"
    by (rule exI [of _ sys']) (intro conjI r' ws' fl0 one)
  with rej show ?thesis by (intro conjI)
qed

subsection \<open>The bounds of the pool\<close>

lemma length_delete_present:
  "distinct (map fst al) \<Longrightarrow> k \<in> fst ` set al \<Longrightarrow> length (AList.delete k al) + 1 = length al"
  by (induction al) (auto simp: delete_absent)

lemma remove_agent_present:
  assumes "distinct_keys s" and "aid \<in> fst ` set (agents s)" and "fault \<noteq> FailsEarly"
  shows "length (agents (snd (remove_agent s aid fault))) + 1 = length (agents s)"
proof -
  obtain a where a: "map_of (agents s) aid = Some a"
    using assms(2) by (metis domD dom_map_of_conv_image_fst)
  have "agents (snd (remove_agent s aid fault)) = AList.delete aid (agents s)"
    using a assms(3) by (simp add: remove_agent_def Let_def split: option.splits)
  then show ?thesis
    using length_delete_present [of "agents s" aid] assms(1,2) by (simp add: distinct_keys_def)
qed

text \<open>
  C4, as amended. In every state the running pool reaches the number of executors is at
  most \<open>max_agents\<close> (which is not negative). No operation keeps a minimum:
  \<open>remove_agent\<close> removes whatever executor of the pool it is asked to, unless the
  executor's shutdown fails. Only the autoscaler stops at 3: a round of it never takes a
  pool of at least 3 executors below 3.
\<close>

theorem executor_count_bounds:
  assumes "run fl cfg (initialize n rows) evs = Some sys" and "0 \<le> max_agents cfg"
  shows "int (length (agents (pool sys))) \<le> max_agents cfg \<and>
         (\<forall>uid fault faults. 3 \<le> length (agents (pool sys)) \<longrightarrow>
            3 \<le> length (agents (snd (snd (optimize_cycle fl cfg uid fault faults (pool sys)))))) \<and>
         (\<forall>aid fault. aid \<in> fst ` set (agents (pool sys)) \<and> fault \<noteq> FailsEarly \<longrightarrow>
            length (agents (snd (remove_agent (pool sys) aid fault))) + 1 = length (agents (pool sys)))"
proof -
  have l0: "within_limit cfg (pool (initialize n rows))"
    using assms(2) by (simp add: within_limit_def initialize_def init_pool_def)
  note I = run_size_invariants [OF assms(1) initialize_invariants(2) l0]
  have p2: "\<forall>uid fault faults. 3 \<le> length (agents (pool sys)) \<longrightarrow>
            3 \<le> length (agents (snd (snd (optimize_cycle fl cfg uid fault faults (pool sys)))))"
    using optimize_cycle_invariants [OF I [THEN conjunct1] I [THEN conjunct2]] by simp
  have p3: "\<forall>aid fault. aid \<in> fst ` set (agents (pool sys)) \<and> fault \<noteq> FailsEarly \<longrightarrow>
            length (agents (snd (remove_agent (pool sys) aid fault))) + 1 = length (agents (pool sys))"
    using remove_agent_present [OF I [THEN conjunct1]] by blast
  have p1: "int (length (agents (pool sys))) \<le> max_agents cfg"
    using I by (simp add: within_limit_def)
  show ?thesis by (intro conjI p1 p2 p3)
qed

theorem executor_count_bounds_witness:
  "\<exists>sys. run exact_floats default_settings (initialize 3 []) demo_events = Some sys \<and>
         int (length (agents (pool sys))) \<le> max_agents default_settings"
proof -
  obtain sys where r: "run exact_floats default_settings (initialize 3 []) demo_events = Some sys"
    using demo_events_run [of exact_floats]
    by (cases "run exact_floats default_settings (initialize 3 []) demo_events") auto
  have "0 \<le> max_agents default_settings" by (simp add: default_settings_def)
  from executor_count_bounds [OF r this]
  have "int (length (agents (pool sys))) \<le> max_agents default_settings"
    by (rule conjunct1)
  with r show ?thesis by (intro exI [of _ sys] conjI)
qed

text \<open>
  C4 as stated fails: after three creations, one removal through the API leaves the
  running pool with 2 executors, below the floor of 3.
\<close>

theorem executor_count_floor_counterexample:
  "map_option running_size (run exact_floats default_settings (initialize 3 []) demo_events)
     = Some (True, 2)"
  by (simp add: eval_defs demo_events_def running_size_def)

subsection \<open>The scale-up of the autoscaler\<close>









end
